theory Spec2Isabelle
  imports Main
begin

text \<open>
  The streaming executor (\<open>client.ts\<close>), the transactions of the session
  (\<open>session.ts\<close>) and the connection pool (\<open>pool.ts\<close>) of the DuckDB driver, as
  functions on explicit states.  What the engine, the cursor and the clock do is an
  argument of the functions; an exception is a value; an \<open>await\<close> is a point where a call
  stops and can be taken up again.
\<close>

section \<open>Errors and small string helpers\<close>

text \<open>
  The errors the three modules raise.  \<open>Failure msg\<close> stands for any other \<open>Error\<close>
  object (raised by the engine, the driver or a user callback) with its message,
  \<open>Thrown v\<close> for a thrown value that is not an \<open>Error\<close> instance.
\<close>

datatype error =
    PoolClosed
  | QueueFull int
  | AcquireTimeout int
  | InvalidIsolationLevel string
  | InvalidAccessMode string
  | InvalidDeferrable string
  | TransactionRollbackError
  | Failure string
  | Thrown string

text \<open>Decimal rendering of a number, as a template literal renders an integer.\<close>

definition digit_char :: "nat \<Rightarrow> char" where
  "digit_char d = char_of (48 + d)"

fun show_nat :: "nat \<Rightarrow> string" where
  "show_nat n = (if n < 10 then [digit_char n] else show_nat (n div 10) @ [digit_char (n mod 10)])"

declare show_nat.simps [simp del]

definition show_int :: "int \<Rightarrow> string" where
  "show_int i = (if i < 0 then CHR ''-'' # show_nat (nat (- i)) else show_nat (nat i))"

section \<open>client.ts: streaming in batches\<close>

subsection \<open>Column names and row objects\<close>

text \<open>
  \<open>deduplicateColumns\<close>: a first loop looks for a repeated name and stops at the first
  one; only then are the names rewritten, a repeated name getting the suffix
  \<open>_<count>\<close>.
\<close>

fun hasDuplicates :: "(string \<rightharpoonup> nat) \<Rightarrow> string list \<Rightarrow> bool" where
  "hasDuplicates counts [] = False"
| "hasDuplicates counts (column # columns) =
     (let next = (case counts column of None \<Rightarrow> 0 | Some n \<Rightarrow> n) + 1
      in if next > 1 then True else hasDuplicates (counts(column \<mapsto> next)) columns)"

fun renameColumns :: "(string \<rightharpoonup> nat) \<Rightarrow> string list \<Rightarrow> string list" where
  "renameColumns counts [] = []"
| "renameColumns counts (column # columns) =
     (let count = (case counts column of None \<Rightarrow> 0 | Some n \<Rightarrow> n)
      in (if count = 0 then column else column @ ''_'' @ show_nat count)
         # renameColumns (counts(column \<mapsto> count + 1)) columns)"

definition deduplicateColumns :: "string list \<Rightarrow> string list" where
  "deduplicateColumns columns =
     (if \<not> hasDuplicates Map.empty columns then columns
      else renameColumns Map.empty columns)"

text \<open>
  \<open>mapRowsToObjects\<close>: every row becomes an object with one property per column, the
  value at the column's index (\<open>None\<close> is JavaScript's \<open>undefined\<close>, read past the end
  of the row); a later column of the same name overwrites an earlier one.  An object is
  a map from names to values here; a column called \<open>__proto__\<close>, which JavaScript does not
  store as a property, is outside the model.
\<close>

type_synonym 'v row = "'v list"
type_synonym 'v RowData = "string \<rightharpoonup> 'v option"

definition row_at :: "'v row \<Rightarrow> nat \<Rightarrow> 'v option" where
  "row_at vals idx = (if idx < length vals then Some (vals ! idx) else None)"

definition mapRowToObject :: "string list \<Rightarrow> 'v row \<Rightarrow> 'v RowData" where
  "mapRowToObject columns vals =
     foldl (\<lambda>obj (col, idx). obj(col \<mapsto> row_at vals idx)) Map.empty
       (zip columns [0 ..< length columns])"

definition mapRowsToObjects :: "string list \<Rightarrow> 'v row list \<Rightarrow> 'v RowData list" where
  "mapRowsToObjects columns rows = map (mapRowToObject columns) rows"

subsection \<open>The cursor and the clients\<close>

text \<open>
  \<open>StreamResultLike\<close>: the cursor \<open>client.stream\<close> returns.  \<open>sr_chunks\<close> are the chunks
  \<open>yieldRowsJs()\<close> produces, after which the iteration ends or raises \<open>sr_error\<close>.
  \<open>deduplicatedColumnNames\<close>, \<open>close\<close> and \<open>cancel\<close> are optional methods (\<open>None\<close> when
  the cursor has none); a method that is there returns or raises.
\<close>

record 'v StreamResultLike =
  sr_chunks :: "'v row list list"
  sr_error :: "error option"
  sr_columnNames :: "error + string list"
  sr_deduplicatedColumnNames :: "(error + string list) option"
  sr_close :: "error option option"
  sr_cancel :: "error option option"

text \<open>
  A connection is what its \<open>stream(query, values)\<close> does; a pool is what its
  \<open>acquire()\<close> and its \<open>release(connection)\<close> do (\<open>isPool\<close> tells them apart).
\<close>

type_synonym 'v connection = "error + 'v StreamResultLike"

datatype 'v client =
    Conn "'v connection"
  | PoolClient "error + 'v connection" "error option"

record ExecuteInBatchesOptions =
  rowsPerChunk :: "int option"

text \<open>What the generators do to the pool and to the cursor, in order.\<close>

datatype event = Acquired | Released | Streamed | CursorClose | CursorCancel

text \<open>
  \<open>closeStreamResult\<close>: \<open>close\<close> if the cursor has it, else \<open>cancel\<close> if it has that;
  whatever the call raises is swallowed.
\<close>

definition closeStreamResult :: "'v StreamResultLike \<Rightarrow> event list" where
  "closeStreamResult result =
     (case sr_close result of
        Some _ \<Rightarrow> [CursorClose]
      | None \<Rightarrow> (case sr_cancel result of Some _ \<Rightarrow> [CursorCancel] | None \<Rightarrow> []))"

definition effectiveRowsPerChunk :: "ExecuteInBatchesOptions \<Rightarrow> int" where
  "effectiveRowsPerChunk options =
     (case rowsPerChunk options of
        Some n \<Rightarrow> if n \<noteq> 0 \<and> n > 0 then n else 100000
      | None \<Rightarrow> 100000)"

subsection \<open>The generator on a connection\<close>

text \<open>
  The two nested \<open>for\<close> loops, run from a point inside them up to the next \<open>yield\<close>:
  \<open>rows\<close> is the rest of the current chunk (already mapped by \<open>f\<close>), \<open>chunks\<close> what the
  cursor has still to produce.  \<open>Inl\<close> is the suspension at the \<open>yield\<close> in the loop, with
  the buffer yielded; \<open>Inr\<close> the buffer when the cursor is finished.
\<close>

fun fill :: "('c \<Rightarrow> 'o list) \<Rightarrow> int \<Rightarrow> 'o list \<Rightarrow> 'o list \<Rightarrow> 'c list
    \<Rightarrow> ('o list \<times> 'o list \<times> 'c list) + 'o list" where
  "fill f P buffer [] [] = Inr buffer"
| "fill f P buffer [] (chunk # chunks) = fill f P buffer (f chunk) chunks"
| "fill f P buffer (row # rows) chunks =
     (let buffer' = buffer @ [row]
      in if int (length buffer') \<ge> P then Inl (buffer', rows, chunks)
         else fill f P buffer' rows chunks)"

text \<open>
  Where a generator on a connection is suspended: not started, at the \<open>yield\<close> inside the
  loops, at the \<open>yield\<close> after them, or finished.
\<close>

datatype ('v, 'o) conn_gen =
    CG_Start
  | CG_InLoop "'v StreamResultLike" "string list" "'o list" "'v row list list"
  | CG_AfterLoop "'v StreamResultLike"
  | CG_Done

datatype 'y step = Yield 'y | Return | Throw error

definition after_loop :: "(string list \<Rightarrow> 'o list \<Rightarrow> 'y) \<Rightarrow> 'v StreamResultLike
    \<Rightarrow> string list \<Rightarrow> 'o list \<Rightarrow> ('v, 'o) conn_gen \<times> 'y step \<times> event list" where
  "after_loop mk result columns buffer =
     (case sr_error result of
        Some e \<Rightarrow> (CG_Done, Throw e, closeStreamResult result)
      | None \<Rightarrow>
          if length buffer > 0 then (CG_AfterLoop result, Yield (mk columns buffer), [])
          else (CG_Done, Return, closeStreamResult result))"

definition in_loop :: "(string list \<Rightarrow> 'v row list \<Rightarrow> 'o list) \<Rightarrow> (string list \<Rightarrow> 'o list \<Rightarrow> 'y)
    \<Rightarrow> int \<Rightarrow> 'v StreamResultLike \<Rightarrow> string list \<Rightarrow> 'o list \<Rightarrow> 'o list \<Rightarrow> 'v row list list
    \<Rightarrow> ('v, 'o) conn_gen \<times> 'y step \<times> event list" where
  "in_loop f mk P result columns buffer rows chunks =
     (case fill (f columns) P buffer rows chunks of
        Inl (buffer', rows', chunks') \<Rightarrow>
          (CG_InLoop result columns rows' chunks', Yield (mk columns buffer'), [])
      | Inr buffer' \<Rightarrow> after_loop mk result columns buffer')"

text \<open>
  The first \<open>next()\<close>: the statements before the \<open>try\<close> (a failure there leaves the
  generator without running \<open>finally\<close>), then the loops with an empty buffer.
\<close>

definition conn_start :: "(string list \<Rightarrow> 'v row list \<Rightarrow> 'o list) \<Rightarrow> (string list \<Rightarrow> 'o list \<Rightarrow> 'y)
    \<Rightarrow> ExecuteInBatchesOptions \<Rightarrow> 'v connection
    \<Rightarrow> ('v, 'o) conn_gen \<times> 'y step \<times> event list" where
  "conn_start f mk options connection =
     (let P = effectiveRowsPerChunk options in
      case connection of
        Inl e \<Rightarrow> (CG_Done, Throw e, [])
      | Inr result \<Rightarrow>
          (case (case sr_deduplicatedColumnNames result of
                   Some names \<Rightarrow> names
                 | None \<Rightarrow> sr_columnNames result) of
             Inl e \<Rightarrow> (CG_Done, Throw e, [Streamed])
           | Inr rawColumns \<Rightarrow>
               (let columns = (case sr_deduplicatedColumnNames result of
                                 Some _ \<Rightarrow> rawColumns
                               | None \<Rightarrow> deduplicateColumns rawColumns);
                    (st, out, evs) = in_loop f mk P result columns [] [] (sr_chunks result)
                in (st, out, Streamed # evs))))"

text \<open>A later \<open>next()\<close> resumes after the \<open>yield\<close> the generator is suspended at.\<close>

definition conn_resume :: "(string list \<Rightarrow> 'v row list \<Rightarrow> 'o list) \<Rightarrow> (string list \<Rightarrow> 'o list \<Rightarrow> 'y)
    \<Rightarrow> ExecuteInBatchesOptions \<Rightarrow> ('v, 'o) conn_gen
    \<Rightarrow> ('v, 'o) conn_gen \<times> 'y step \<times> event list" where
  "conn_resume f mk options st =
     (case st of
        CG_Start \<Rightarrow> (CG_Done, Return, [])
      | CG_InLoop result columns rows chunks \<Rightarrow>
          in_loop f mk (effectiveRowsPerChunk options) result columns [] rows chunks
      | CG_AfterLoop result \<Rightarrow> (CG_Done, Return, closeStreamResult result)
      | CG_Done \<Rightarrow> (CG_Done, Return, []))"

text \<open>
  \<open>return()\<close> (a \<open>break\<close> or an exception in the consumer's loop body) and \<open>throw()\<close>: a
  generator suspended inside the \<open>try\<close> runs its \<open>finally\<close> and is finished.
\<close>

definition conn_return :: "('v, 'o) conn_gen \<Rightarrow> ('v, 'o) conn_gen \<times> event list" where
  "conn_return st =
     (case st of
        CG_Start \<Rightarrow> (CG_Done, [])
      | CG_InLoop result columns rows chunks \<Rightarrow> (CG_Done, closeStreamResult result)
      | CG_AfterLoop result \<Rightarrow> (CG_Done, closeStreamResult result)
      | CG_Done \<Rightarrow> (CG_Done, []))"

subsection \<open>The generators on a client\<close>

text \<open>
  On a pool the generator acquires a connection, delegates to itself on that connection
  (\<open>yield*\<close>) inside a \<open>try\<close>, and releases the connection in the \<open>finally\<close>.  \<open>G_Pooled\<close>
  is the generator suspended inside that \<open>try\<close>, with what \<open>release\<close> will do.
\<close>

datatype ('v, 'o) gen =
    G_Start
  | G_Direct "('v, 'o) conn_gen"
  | G_Pooled "error option" "('v, 'o) conn_gen"
  | G_Done

text \<open>
  The pool's \<open>finally\<close>: the connection is released; an exception raised by \<open>release\<close>
  replaces the outcome of the \<open>try\<close>.
\<close>

definition release_finally :: "error option \<Rightarrow> 'y step \<Rightarrow> 'y step" where
  "release_finally rel out = (case rel of Some e \<Rightarrow> Throw e | None \<Rightarrow> out)"

definition direct_step :: "('v, 'o) conn_gen \<times> 'y step \<times> event list
    \<Rightarrow> ('v, 'o) gen \<times> 'y step \<times> event list" where
  "direct_step r =
     (case r of
        (st, Yield y, evs) \<Rightarrow> (G_Direct st, Yield y, evs)
      | (st, out, evs) \<Rightarrow> (G_Done, out, evs))"

definition pooled_step :: "error option \<Rightarrow> ('v, 'o) conn_gen \<times> 'y step \<times> event list
    \<Rightarrow> ('v, 'o) gen \<times> 'y step \<times> event list" where
  "pooled_step rel r =
     (case r of
        (st, Yield y, evs) \<Rightarrow> (G_Pooled rel st, Yield y, evs)
      | (st, out, evs) \<Rightarrow> (G_Done, release_finally rel out, evs @ [Released]))"

definition gen_next :: "(string list \<Rightarrow> 'v row list \<Rightarrow> 'o list) \<Rightarrow> (string list \<Rightarrow> 'o list \<Rightarrow> 'y)
    \<Rightarrow> 'v client \<Rightarrow> ExecuteInBatchesOptions \<Rightarrow> ('v, 'o) gen
    \<Rightarrow> ('v, 'o) gen \<times> 'y step \<times> event list" where
  "gen_next f mk client options g =
     (case g of
        G_Start \<Rightarrow>
          (case client of
             PoolClient acquire rel \<Rightarrow>
               (case acquire of
                  Inl e \<Rightarrow> (G_Done, Throw e, [])
                | Inr connection \<Rightarrow>
                    (let (g', out, evs) = pooled_step rel (conn_start f mk options connection)
                     in (g', out, Acquired # evs)))
           | Conn connection \<Rightarrow> direct_step (conn_start f mk options connection))
      | G_Direct st \<Rightarrow> direct_step (conn_resume f mk options st)
      | G_Pooled rel st \<Rightarrow> pooled_step rel (conn_resume f mk options st)
      | G_Done \<Rightarrow> (G_Done, Return, []))"

definition gen_return :: "('v, 'o) gen \<Rightarrow> ('v, 'o) gen \<times> event list" where
  "gen_return g =
     (case g of
        G_Start \<Rightarrow> (G_Done, [])
      | G_Direct st \<Rightarrow> (G_Done, snd (conn_return st))
      | G_Pooled rel st \<Rightarrow> (G_Done, snd (conn_return st) @ [Released])
      | G_Done \<Rightarrow> (G_Done, []))"

text \<open>
  \<open>executeInBatches\<close> yields arrays of row objects, \<open>executeInBatchesRaw\<close> yields the
  columns with arrays of rows; the two bodies are otherwise the same.
\<close>

record 'v ExecuteBatchesRawChunk =
  rc_columns :: "string list"
  rc_rows :: "'v row list"

definition executeInBatches :: "'v client \<Rightarrow> ExecuteInBatchesOptions \<Rightarrow> ('v, 'v RowData) gen
    \<Rightarrow> ('v, 'v RowData) gen \<times> 'v RowData list step \<times> event list" where
  "executeInBatches = gen_next mapRowsToObjects (\<lambda>columns buffer. buffer)"

definition executeInBatchesRaw :: "'v client \<Rightarrow> ExecuteInBatchesOptions \<Rightarrow> ('v, 'v row) gen
    \<Rightarrow> ('v, 'v row) gen \<times> 'v ExecuteBatchesRawChunk step \<times> event list" where
  "executeInBatchesRaw =
     gen_next (\<lambda>columns chunk. chunk) (\<lambda>cols buffer. \<lparr>rc_columns = cols, rc_rows = buffer\<rparr>)"

text \<open>
  A consumer drives a generator by a sequence of calls: \<open>Next\<close> asks for a chunk, \<open>Stop\<close>
  is \<open>return()\<close> or \<open>throw()\<close>, what a \<open>for await\<close> loop does when its body leaves by
  \<open>break\<close> or by an exception.  \<open>drive\<close> gives the state reached, what each \<open>Next\<close>
  received, and the events.
\<close>

datatype call = Next | Stop

fun drive :: "(('v, 'o) gen \<Rightarrow> ('v, 'o) gen \<times> 'y step \<times> event list) \<Rightarrow> call list
    \<Rightarrow> ('v, 'o) gen \<Rightarrow> ('v, 'o) gen \<times> 'y step list \<times> event list" where
  "drive nxt [] g = (g, [], [])"
| "drive nxt (Next # calls) g =
     (let (g', out, evs) = nxt g; (g'', outs, evs') = drive nxt calls g'
      in (g'', out # outs, evs @ evs'))"
| "drive nxt (Stop # calls) g =
     (let (g', evs) = gen_return g; (g'', outs, evs') = drive nxt calls g'
      in (g'', outs, evs @ evs'))"

definition closes :: "event list \<Rightarrow> nat" where
  "closes evs = length (filter (\<lambda>e. e = CursorClose \<or> e = CursorCancel) evs)"

subsection \<open>Cleanup: what a finished generator has done\<close>

text \<open>
  The connection the generator works on, and the cursor it has opened and read the column
  names of (none when \<open>acquire\<close>, \<open>stream\<close> or the column names raise).  \<open>names_read\<close>:
  the column names of the cursor that \<open>stream\<close> returned, if it returned one, were read
  without an exception.
\<close>

definition connection_used :: "'v client \<Rightarrow> 'v connection option" where
  "connection_used client =
     (case client of
        Conn connection \<Rightarrow> Some connection
      | PoolClient acquire rel \<Rightarrow> (case acquire of Inl e \<Rightarrow> None | Inr connection \<Rightarrow> Some connection))"

definition cursor_of :: "'v connection \<Rightarrow> 'v StreamResultLike option" where
  "cursor_of connection =
     (case connection of
        Inl e \<Rightarrow> None
      | Inr result \<Rightarrow>
          (case (case sr_deduplicatedColumnNames result of
                   Some names \<Rightarrow> names
                 | None \<Rightarrow> sr_columnNames result) of
             Inl e \<Rightarrow> None
           | Inr names \<Rightarrow> Some result))"

definition cursor_opened :: "'v client \<Rightarrow> 'v StreamResultLike option" where
  "cursor_opened client =
     (case connection_used client of None \<Rightarrow> None | Some connection \<Rightarrow> cursor_of connection)"

definition names_read :: "'v client \<Rightarrow> bool" where
  "names_read client =
     (case connection_used client of
        Some (Inr result) \<Rightarrow> cursor_of (Inr result) = Some result
      | _ \<Rightarrow> True)"

text \<open>
  The events a suspended generator has still to produce: those of the \<open>finally\<close> blocks
  it is suspended inside, the cursor's before the pool's.
\<close>

definition cleanup_conn :: "('v, 'o) conn_gen \<Rightarrow> event list" where
  "cleanup_conn st =
     (case st of
        CG_InLoop result columns rows chunks \<Rightarrow> closeStreamResult result
      | CG_AfterLoop result \<Rightarrow> closeStreamResult result
      | _ \<Rightarrow> [])"

definition cleanup :: "('v, 'o) gen \<Rightarrow> event list" where
  "cleanup g =
     (case g of
        G_Direct st \<Rightarrow> cleanup_conn st
      | G_Pooled rel st \<Rightarrow> cleanup_conn st @ [Released]
      | _ \<Rightarrow> [])"

text \<open>All the events of a generator that was started and is finished.\<close>

definition started_conn :: "'v connection \<Rightarrow> event list" where
  "started_conn connection =
     (case connection of
        Inl e \<Rightarrow> []
      | Inr result \<Rightarrow>
          Streamed # (case cursor_of connection of None \<Rightarrow> [] | Some r \<Rightarrow> closeStreamResult r))"

definition started :: "'v client \<Rightarrow> event list" where
  "started client =
     (case client of
        Conn connection \<Rightarrow> started_conn connection
      | PoolClient acquire rel \<Rightarrow>
          (case acquire of
             Inl e \<Rightarrow> []
           | Inr connection \<Rightarrow> Acquired # started_conn connection @ [Released]))"

lemma after_loop_cleanup:
  "after_loop mk r cols buf = (st, out, evs) \<Longrightarrow> evs @ cleanup_conn st = closeStreamResult r"
  by (auto simp: after_loop_def cleanup_conn_def split: option.splits if_splits)

lemma in_loop_cleanup:
  "in_loop f mk P r cols buf rws chunks = (st, out, evs) \<Longrightarrow>
     evs @ cleanup_conn st = closeStreamResult r"
  by (auto simp: in_loop_def cleanup_conn_def split: sum.splits prod.splits dest: after_loop_cleanup)

lemma conn_resume_cleanup:
  "conn_resume f mk options st = (st', out, evs) \<Longrightarrow> evs @ cleanup_conn st' = cleanup_conn st"
  by (auto simp: conn_resume_def cleanup_conn_def split: conn_gen.splits dest: in_loop_cleanup)

lemma conn_resume_done:
  "conn_resume f mk options st = (st', out, evs) \<Longrightarrow> (\<forall>y. out \<noteq> Yield y) \<Longrightarrow> cleanup_conn st' = []"
  by (auto simp: conn_resume_def cleanup_conn_def in_loop_def after_loop_def
      split: conn_gen.splits sum.splits prod.splits option.splits if_splits)

lemma conn_start_cleanup:
  "conn_start f mk options connection = (st, out, evs) \<Longrightarrow>
     evs @ cleanup_conn st = started_conn connection"
  by (auto simp: conn_start_def cursor_of_def started_conn_def cleanup_conn_def Let_def
      split: sum.splits option.splits prod.splits dest!: in_loop_cleanup)

lemma conn_start_done:
  "conn_start f mk options connection = (st, out, evs) \<Longrightarrow> (\<forall>y. out \<noteq> Yield y) \<Longrightarrow> cleanup_conn st = []"
  by (auto simp: conn_start_def cleanup_conn_def in_loop_def after_loop_def Let_def
      split: conn_gen.splits sum.splits prod.splits option.splits if_splits)

lemma direct_step_cleanup:
  "direct_step r = (g', out, evs) \<Longrightarrow> r = (st, out0, evs0) \<Longrightarrow>
     ((\<forall>y. out0 \<noteq> Yield y) \<longrightarrow> cleanup_conn st = []) \<Longrightarrow>
     evs @ cleanup g' = evs0 @ cleanup_conn st \<and> g' \<noteq> G_Start"
  by (auto simp: direct_step_def cleanup_def split: step.splits)

lemma pooled_step_cleanup:
  "pooled_step rel r = (g', out, evs) \<Longrightarrow> r = (st, out0, evs0) \<Longrightarrow>
     ((\<forall>y. out0 \<noteq> Yield y) \<longrightarrow> cleanup_conn st = []) \<Longrightarrow>
     evs @ cleanup g' = evs0 @ cleanup_conn st @ [Released] \<and> g' \<noteq> G_Start"
  by (auto simp: pooled_step_def cleanup_def split: step.splits)

lemma gen_next_cleanup:
  assumes "gen_next f mk client options g = (g', out, evs)" and "g \<noteq> G_Start"
  shows "evs @ cleanup g' = cleanup g \<and> g' \<noteq> G_Start"
proof (cases g)
  case G_Start
  with assms show ?thesis by simp
next
  case (G_Direct st)
  obtain st' out0 evs0 where r: "conn_resume f mk options st = (st', out0, evs0)"
    by (cases "conn_resume f mk options st") auto
  from assms G_Direct r have d: "direct_step (st', out0, evs0) = (g', out, evs)"
    by (simp add: gen_next_def)
  from direct_step_cleanup [OF d refl] conn_resume_done [OF r] conn_resume_cleanup [OF r] G_Direct
  show ?thesis by (simp add: cleanup_def)
next
  case (G_Pooled rel st)
  obtain st' out0 evs0 where r: "conn_resume f mk options st = (st', out0, evs0)"
    by (cases "conn_resume f mk options st") auto
  from assms G_Pooled r have d: "pooled_step rel (st', out0, evs0) = (g', out, evs)"
    by (simp add: gen_next_def)
  from pooled_step_cleanup [OF d refl] conn_resume_done [OF r] conn_resume_cleanup [OF r] G_Pooled
  show ?thesis by (simp add: cleanup_def flip: append_assoc)
next
  case G_Done
  with assms show ?thesis by (auto simp: gen_next_def cleanup_def)
qed

lemma gen_next_start:
  assumes "gen_next f mk client options G_Start = (g', out, evs)"
  shows "evs @ cleanup g' = started client \<and> g' \<noteq> G_Start"
proof (cases client)
  case (Conn connection)
  obtain st' out0 evs0 where r: "conn_start f mk options connection = (st', out0, evs0)"
    by (cases "conn_start f mk options connection") auto
  from assms Conn r have d: "direct_step (st', out0, evs0) = (g', out, evs)"
    by (simp add: gen_next_def)
  from direct_step_cleanup [OF d refl] conn_start_done [OF r] conn_start_cleanup [OF r] Conn
  show ?thesis
    by (simp add: started_def)
next
  case (PoolClient acquire rel)
  show ?thesis
  proof (cases acquire)
    case (Inl e)
    with assms PoolClient show ?thesis
      by (auto simp: gen_next_def started_def cleanup_def)
  next
    case (Inr connection)
    obtain st' out0 evs0 where r: "conn_start f mk options connection = (st', out0, evs0)"
      by (cases "conn_start f mk options connection") auto
    obtain g1 out1 evs1 where d: "pooled_step rel (st', out0, evs0) = (g1, out1, evs1)"
      by (cases "pooled_step rel (st', out0, evs0)") auto
    from assms PoolClient Inr r d have e: "g' = g1" "out = out1" "evs = Acquired # evs1"
      by (simp_all add: gen_next_def)
    from pooled_step_cleanup [OF d refl] conn_start_done [OF r] conn_start_cleanup [OF r] PoolClient Inr e
    show ?thesis
      by (simp add: started_def flip: append_assoc)
  qed
qed

lemma gen_return_cleanup:
  "gen_return g = (g', evs) \<Longrightarrow> g \<noteq> G_Start \<Longrightarrow> evs @ cleanup g' = cleanup g \<and> g' \<noteq> G_Start"
  by (auto simp: gen_return_def conn_return_def cleanup_def cleanup_conn_def
      split: gen.splits conn_gen.splits)

lemma drive_cleanup:
  "drive (gen_next f mk client options) calls g = (g', outs, evs) \<Longrightarrow> g \<noteq> G_Start \<Longrightarrow>
     evs @ cleanup g' = cleanup g"
proof (induction calls arbitrary: g g' outs evs)
  case Nil
  then show ?case by simp
next
  case (Cons c calls)
  show ?case
  proof (cases c)
    case Next
    obtain g1 out1 evs1 where n: "gen_next f mk client options g = (g1, out1, evs1)"
      by (cases "gen_next f mk client options g") auto
    obtain g2 outs2 evs2 where d: "drive (gen_next f mk client options) calls g1 = (g2, outs2, evs2)"
      by (cases "drive (gen_next f mk client options) calls g1") auto
    from Cons.prems(1) Next n d have e: "g' = g2" "evs = evs1 @ evs2" by simp_all
    from gen_next_cleanup [OF n Cons.prems(2)] Cons.IH [OF d] e
    show ?thesis by simp
  next
    case Stop
    obtain g1 evs1 where n: "gen_return g = (g1, evs1)"
      by (cases "gen_return g") auto
    obtain g2 outs2 evs2 where d: "drive (gen_next f mk client options) calls g1 = (g2, outs2, evs2)"
      by (cases "drive (gen_next f mk client options) calls g1") auto
    from Cons.prems(1) Stop n d have e: "g' = g2" "evs = evs1 @ evs2" by simp_all
    from gen_return_cleanup [OF n Cons.prems(2)] Cons.IH [OF d] e
    show ?thesis by simp
  qed
qed

lemma drive_started:
  assumes "drive (gen_next f mk client options) (Next # calls) G_Start = (g', outs, evs)"
  shows "evs @ cleanup g' = started client"
proof -
  obtain g1 out1 evs1 where n: "gen_next f mk client options G_Start = (g1, out1, evs1)"
    by (cases "gen_next f mk client options G_Start") auto
  obtain g2 outs2 evs2 where d: "drive (gen_next f mk client options) calls g1 = (g2, outs2, evs2)"
    by (cases "drive (gen_next f mk client options) calls g1") auto
  from assms n d have e: "g' = g2" "evs = evs1 @ evs2" by simp_all
  from gen_next_start [OF n] have "g1 \<noteq> G_Start" by simp
  from gen_next_start [OF n] drive_cleanup [OF d this] e
  show ?thesis by simp
qed

text \<open>
  Whatever the consumer calls, and wherever it stops calling, the events so far are a
  beginning of those of the finished generator: nothing is acquired, opened, closed or
  released a second time.
\<close>

lemma stream_events_begin:
  assumes "drive (gen_next f mk client options) calls G_Start = (g, outs, evs)"
  shows "\<exists>rest. evs @ rest = started client"
proof (cases calls)
  case Nil
  with assms show ?thesis by simp
next
  case (Cons c cs)
  show ?thesis
  proof (cases c)
    case Next
    from drive_started [OF assms [unfolded Cons Next]] show ?thesis by blast
  next
    case Stop
    obtain g2 outs2 evs2 where
      d: "drive (gen_next f mk client options) cs G_Done = (g2, outs2, evs2)"
      by (cases "drive (gen_next f mk client options) cs (G_Done :: ('a, 'b) gen)") auto
    from assms Cons Stop d have "evs = evs2" by (simp add: gen_return_def)
    with drive_cleanup [OF d] show ?thesis
      by (simp add: cleanup_def)
  qed
qed

text \<open>
  Claim C1, as the code has it.  A consumer that has started the generator and left it
  finished (by exhausting it, by stopping after any number of chunks, or because a call
  raised) has seen, when the cursor's column names could be read, exactly these events in
  this order: on a pool whose \<open>acquire\<close> returned a connection, that one acquisition; if
  \<open>stream\<close> returned a cursor, that one cursor opened and then one call of its \<open>close\<close> if
  it has that method, else one call of its \<open>cancel\<close> if it has that one, else no call; on
  the pool, one \<open>release\<close> of the connection acquired, after the cursor's cleanup.
\<close>

theorem stream_cleanup_exactly_once:
  assumes "drive (executeInBatches client options) (Next # calls) G_Start = (G_Done, outs, evs)
         \<or> drive (executeInBatchesRaw client options) (Next # calls) G_Start = (G_Done, outs', evs)"
    and "names_read client"
  shows "evs =
           (case client of
              Conn connection \<Rightarrow> []
            | PoolClient acquire rel \<Rightarrow> (case acquire of Inl e \<Rightarrow> [] | Inr connection \<Rightarrow> [Acquired]))
         @ (case connection_used client of
              Some (Inr result) \<Rightarrow>
                Streamed # (if sr_close result \<noteq> None then [CursorClose]
                            else if sr_cancel result \<noteq> None then [CursorCancel] else [])
            | _ \<Rightarrow> [])
         @ (case client of
              Conn connection \<Rightarrow> []
            | PoolClient acquire rel \<Rightarrow> (case acquire of Inl e \<Rightarrow> [] | Inr connection \<Rightarrow> [Released]))"
proof -
  have "evs @ cleanup (G_Done :: ('a, 'a RowData) gen) = started client"
    using assms(1)
    by (auto simp only: executeInBatches_def executeInBatchesRaw_def cleanup_def
        gen.case dest!: drive_started)
  with assms(2) show ?thesis
    by (auto simp: cleanup_def started_def started_conn_def names_read_def connection_used_def
        closeStreamResult_def split: client.splits sum.splits option.splits)
qed

text \<open>
  The repository's own test: four rows, one row per chunk, the consumer leaves after the
  first chunk; here on a pool, and with a cursor that has both methods.
\<close>

theorem stream_cleanup_exactly_once_witness:
  "drive (executeInBatchesRaw
       (PoolClient (Inr (Inr \<lparr>sr_chunks = [[[1::nat], [2], [3], [4]]], sr_error = None,
           sr_columnNames = Inr [''id''], sr_deduplicatedColumnNames = Some (Inr [''id'']),
           sr_close = Some None, sr_cancel = Some None\<rparr>)) None)
       \<lparr>rowsPerChunk = Some 1\<rparr>) [Next, Stop] G_Start
     = (G_Done, [Yield \<lparr>rc_columns = [''id''], rc_rows = [[1]]\<rparr>],
        [Acquired, Streamed, CursorClose, Released])
   \<and> names_read
       (PoolClient (Inr (Inr \<lparr>sr_chunks = [[[1::nat], [2], [3], [4]]], sr_error = None,
           sr_columnNames = Inr [''id''], sr_deduplicatedColumnNames = Some (Inr [''id'']),
           sr_close = Some None, sr_cancel = Some None\<rparr>)) None)
   \<and> [Acquired, Streamed, CursorClose, Released] = [Acquired] @ (Streamed # [CursorClose]) @ [Released]"
proof -
  have run: "drive (executeInBatchesRaw
       (PoolClient (Inr (Inr \<lparr>sr_chunks = [[[1::nat], [2], [3], [4]]], sr_error = None,
           sr_columnNames = Inr [''id''], sr_deduplicatedColumnNames = Some (Inr [''id'']),
           sr_close = Some None, sr_cancel = Some None\<rparr>)) None)
       \<lparr>rowsPerChunk = Some 1\<rparr>) [Next, Stop] G_Start
     = (G_Done, [Yield \<lparr>rc_columns = [''id''], rc_rows = [[1]]\<rparr>],
        [Acquired, Streamed, CursorClose, Released])"
    by (simp add: executeInBatchesRaw_def gen_next_def gen_return_def pooled_step_def
        conn_start_def conn_return_def in_loop_def effectiveRowsPerChunk_def closeStreamResult_def
        Let_def)
  have names: "names_read
       (PoolClient (Inr (Inr \<lparr>sr_chunks = [[[1::nat], [2], [3], [4]]], sr_error = None,
           sr_columnNames = Inr [''id''], sr_deduplicatedColumnNames = Some (Inr [''id'']),
           sr_close = Some None, sr_cancel = Some None\<rparr>)) None)"
    by (simp add: names_read_def connection_used_def cursor_of_def)
  from stream_cleanup_exactly_once [OF disjI2, OF run names] run names show ?thesis
    by (simp add: connection_used_def)
qed

text \<open>
  Claim C1 as stated fails for a cursor that has neither \<open>close\<close> nor \<open>cancel\<close> (both are
  optional in \<open>StreamResultLike\<close>): the stream is exhausted and no call is made.
\<close>

theorem stream_cleanup_counterexample:
  "drive (executeInBatchesRaw
       (Conn (Inr \<lparr>sr_chunks = [[[1::nat]]], sr_error = None,
           sr_columnNames = Inr [''id''], sr_deduplicatedColumnNames = None,
           sr_close = None, sr_cancel = None\<rparr>))
       \<lparr>rowsPerChunk = None\<rparr>) [Next, Next] G_Start
     = (G_Done, [Yield \<lparr>rc_columns = [''id''], rc_rows = [[1]]\<rparr>, Return], [Streamed])
   \<and> closes [Streamed] = 0"
  by (simp add: executeInBatchesRaw_def gen_next_def direct_step_def
        conn_start_def conn_resume_def in_loop_def after_loop_def effectiveRowsPerChunk_def
        closeStreamResult_def deduplicateColumns_def closes_def Let_def)

text \<open>
  The case the theorem leaves aside: the column names are read between \<open>client.stream\<close>
  and the \<open>try\<close>, so when reading them raises the \<open>finally\<close> is not reached and the
  cursor, which has a \<open>close\<close>, stays open; the pool's \<open>finally\<close> still releases the
  connection.
\<close>

lemma column_names_raise_leaves_cursor_open:
  "drive (executeInBatches
       (PoolClient (Inr (Inr \<lparr>sr_chunks = [[[1::nat]]], sr_error = None,
           sr_columnNames = Inl (Failure ''names''), sr_deduplicatedColumnNames = None,
           sr_close = Some None, sr_cancel = None\<rparr>)) None)
       \<lparr>rowsPerChunk = None\<rparr>) [Next] G_Start
     = (G_Done, [Throw (Failure ''names'')], [Acquired, Streamed, Released])"
  by (simp add: executeInBatches_def gen_next_def pooled_step_def release_finally_def
        conn_start_def effectiveRowsPerChunk_def Let_def)

subsection \<open>Chunk sizes\<close>

text \<open>The chunks a consumer has received.\<close>

definition yielded :: "'y step list \<Rightarrow> 'y list" where
  "yielded outs = concat (map (\<lambda>s. case s of Yield y \<Rightarrow> [y] | _ \<Rightarrow> []) outs)"

text \<open>
  \<open>R\<close> rows cut into chunks of \<open>p\<close> rows: as many full chunks as fit, then the rest if
  there is one.
\<close>

definition sizes_spec :: "nat \<Rightarrow> nat \<Rightarrow> nat list" where
  "sizes_spec p R = replicate (R div p) p @ (if R mod p = 0 then [] else [R mod p])"

text \<open>
  The sizes of the chunks a suspended generator has still to yield, when its cursor does
  not raise (\<open>ok_conn\<close>, \<open>ok_gen\<close>); \<open>advances\<close> relates them before and after a \<open>next()\<close>.
\<close>

definition todo_conn :: "nat \<Rightarrow> ('v, 'o) conn_gen \<Rightarrow> nat list" where
  "todo_conn p st =
     (case st of
        CG_InLoop result cols rws chunks \<Rightarrow> sizes_spec p (length rws + length (concat chunks))
      | _ \<Rightarrow> [])"

definition ok_conn :: "('v, 'o) conn_gen \<Rightarrow> bool" where
  "ok_conn st = (case st of CG_InLoop result cols rws chunks \<Rightarrow> sr_error result = None | _ \<Rightarrow> True)"

definition todo_gen :: "nat \<Rightarrow> ('v, 'o) gen \<Rightarrow> nat list" where
  "todo_gen p g = (case g of G_Direct st \<Rightarrow> todo_conn p st | G_Pooled rel st \<Rightarrow> todo_conn p st | _ \<Rightarrow> [])"

definition ok_gen :: "('v, 'o) gen \<Rightarrow> bool" where
  "ok_gen g = (case g of G_Direct st \<Rightarrow> ok_conn st | G_Pooled rel st \<Rightarrow> ok_conn st | G_Start \<Rightarrow> False | G_Done \<Rightarrow> True)"

definition advances :: "('y \<Rightarrow> nat) \<Rightarrow> 'y step \<Rightarrow> nat list \<Rightarrow> nat list \<Rightarrow> bool \<Rightarrow> bool" where
  "advances sz out T T' fin = (case out of Yield y \<Rightarrow> T = sz y # T' | _ \<Rightarrow> T = [] \<and> fin)"

lemma advances_simps [simp]:
  "advances sz (Yield y) T T' fin = (T = sz y # T')"
  "advances sz Return T T' fin = (T = [] \<and> fin)"
  "advances sz (Throw e) T T' fin = (T = [] \<and> fin)"
  by (simp_all add: advances_def)

lemma sizes_spec_0: "sizes_spec p 0 = []"
  by (simp add: sizes_spec_def)

lemma sizes_spec_small: "0 < R \<Longrightarrow> R < p \<Longrightarrow> sizes_spec p R = [R]"
  by (simp add: sizes_spec_def)

lemma sizes_spec_step: "0 < p \<Longrightarrow> p \<le> R \<Longrightarrow> sizes_spec p R = p # sizes_spec p (R - p)"
  by (simp add: sizes_spec_def le_div_geq le_mod_geq)

lemma fill_sizes:
  "0 < p \<Longrightarrow> \<forall>c. length (f c) = length c \<Longrightarrow> length buf < p \<Longrightarrow>
     (case fill f (int p) buf rws chunks of
        Inl (b, rws', chunks') \<Rightarrow>
          length b = p
          \<and> length rws' + length (concat chunks') + p = length buf + length rws + length (concat chunks)
      | Inr b \<Rightarrow> length b = length buf + length rws + length (concat chunks) \<and> length b < p)"
proof (induction f "int p" buf rws chunks rule: fill.induct)
  case (1 f buffer)
  then show ?case by simp
next
  case (2 f buffer chunk chunks)
  then show ?case by (simp split: sum.splits prod.splits)
next
  case (3 f buffer row rws chunks)
  then show ?case by (auto simp: Let_def split: sum.splits prod.splits)
qed

lemma in_loop_sizes:
  assumes "0 < p" and "\<forall>c. length (f cols c) = length c" and "\<forall>b. sz (mk cols b) = length b"
    and "sr_error result = None"
    and "in_loop f mk (int p) result cols [] rws chunks = (st, out, evs)"
    and "R = length rws + length (concat chunks)"
  shows "ok_conn st \<and> (advances sz out (sizes_spec p R) (todo_conn p st) (st = CG_Done))"
proof (cases "fill (f cols) (int p) [] rws chunks")
  case (Inl a)
  obtain b rws' chunks' where a: "a = (b, rws', chunks')" by (cases a) auto
  define R' where "R' = length rws' + length (concat chunks')"
  from fill_sizes [OF assms(1,2), of "[]" rws chunks] Inl a assms(1,6)
  have "length b = p" "R' + p = R"
    by (simp_all add: R'_def)
  then have "sizes_spec p R = p # sizes_spec p R'"
    using sizes_spec_step [OF assms(1), of R] by auto
  moreover from assms(5) Inl a have "st = CG_InLoop result cols rws' chunks'" "out = Yield (mk cols b)"
    by (simp_all add: in_loop_def)
  ultimately show ?thesis
    using assms(3,4) \<open>length b = p\<close> by (simp add: ok_conn_def todo_conn_def R'_def)
next
  case (Inr b)
  from fill_sizes [OF assms(1,2), of "[]" rws chunks] Inr assms(1,6)
  have lb: "length b = R" "R < p"
    by simp_all
  show ?thesis
  proof (cases "R = 0")
    case True
    with assms(4,5) Inr lb have "st = CG_Done" "out = Return"
      by (simp_all add: in_loop_def after_loop_def)
    with True show ?thesis by (simp add: ok_conn_def sizes_spec_0)
  next
    case False
    with assms(4,5) Inr lb have "st = CG_AfterLoop result" "out = Yield (mk cols b)"
      by (simp_all add: in_loop_def after_loop_def)
    with False lb assms(3) show ?thesis
      by (simp add: ok_conn_def todo_conn_def sizes_spec_small)
  qed
qed

lemma conn_resume_sizes:
  assumes "0 < p" and "\<forall>cols c. length (f cols c) = length c" and "\<forall>cols b. sz (mk cols b) = length b"
    and "effectiveRowsPerChunk options = int p"
    and "ok_conn st" and "conn_resume f mk options st = (st', out, evs)"
  shows "ok_conn st' \<and> (advances sz out (todo_conn p st) (todo_conn p st') (st' = CG_Done))"
proof (cases st)
  case (CG_InLoop result cols rws chunks)
  with assms(4,6) have "in_loop f mk (int p) result cols [] rws chunks = (st', out, evs)"
    by (simp add: conn_resume_def)
  from in_loop_sizes [OF assms(1) _ _ _ this refl, of sz] assms(2,3,5) CG_InLoop
  show ?thesis by (auto simp: ok_conn_def todo_conn_def split: step.splits)
qed (use assms in \<open>auto simp: conn_resume_def ok_conn_def todo_conn_def\<close>)

lemma conn_start_sizes:
  assumes "0 < p" and "\<forall>cols c. length (f cols c) = length c" and "\<forall>cols b. sz (mk cols b) = length b"
    and "effectiveRowsPerChunk options = int p"
    and "cursor_of connection = Some result" and "sr_error result = None"
    and "conn_start f mk options connection = (st', out, evs)"
  shows "ok_conn st' \<and> (advances sz out (sizes_spec p (length (concat (sr_chunks result)))) (todo_conn p st') (st' = CG_Done))"
proof -
  from assms(5) have c: "connection = Inr result"
    by (auto simp: cursor_of_def split: sum.splits option.splits)
  from assms(5) c obtain rawColumns where
    r: "(case sr_deduplicatedColumnNames result of Some names \<Rightarrow> names | None \<Rightarrow> sr_columnNames result)
         = Inr rawColumns"
    by (auto simp: cursor_of_def split: sum.splits)
  define cols where "cols = (case sr_deduplicatedColumnNames result of
      Some _ \<Rightarrow> rawColumns | None \<Rightarrow> deduplicateColumns rawColumns)"
  obtain st1 out1 evs1 where
    i: "in_loop f mk (int p) result cols [] [] (sr_chunks result) = (st1, out1, evs1)"
    by (cases "in_loop f mk (int p) result cols [] [] (sr_chunks result)") auto
  from assms(4,7) c r i have "st' = st1" "out = out1"
    by (simp_all add: conn_start_def cols_def)
  with in_loop_sizes [OF assms(1) _ _ assms(6) i, of sz "length (concat (sr_chunks result))"]
    assms(2,3)
  show ?thesis by (auto split: step.splits)
qed


lemma direct_step_sizes:
  assumes "direct_step (st, out0, evs0) = (g', out, evs)"
    and "ok_conn st"
    and "advances sz out0 (T) (todo_conn p st) (st = CG_Done)"
  shows "ok_gen g' \<and> (advances sz out (T) (todo_gen p g') (g' = G_Done))"
  using assms by (auto simp: direct_step_def ok_gen_def todo_gen_def split: step.splits)

lemma pooled_step_sizes:
  assumes "pooled_step rel (st, out0, evs0) = (g', out, evs)"
    and "ok_conn st"
    and "advances sz out0 (T) (todo_conn p st) (st = CG_Done)"
  shows "ok_gen g' \<and> (advances sz out (T) (todo_gen p g') (g' = G_Done))"
  using assms
  by (auto simp: pooled_step_def release_finally_def ok_gen_def todo_gen_def
      split: step.splits option.splits)

lemma gen_next_sizes:
  assumes "0 < p" and "\<forall>cols c. length (f cols c) = length c" and "\<forall>cols b. sz (mk cols b) = length b"
    and "effectiveRowsPerChunk options = int p"
    and "ok_gen g" and "gen_next f mk client options g = (g', out, evs)"
  shows "ok_gen g' \<and> (advances sz out (todo_gen p g) (todo_gen p g') (g' = G_Done))"
proof (cases g)
  case G_Start
  with assms(5) show ?thesis by (simp add: ok_gen_def)
next
  case (G_Direct st)
  obtain st' out0 evs0 where r: "conn_resume f mk options st = (st', out0, evs0)"
    by (cases "conn_resume f mk options st") auto
  from assms(6) G_Direct r have d: "direct_step (st', out0, evs0) = (g', out, evs)"
    by (simp add: gen_next_def)
  from assms(5) G_Direct have "ok_conn st" by (simp add: ok_gen_def)
  from conn_resume_sizes [OF assms(1-4) this r]
  have "ok_conn st'"
    "advances sz out0 (todo_conn p st) (todo_conn p st') (st' = CG_Done)"
    by simp_all
  from direct_step_sizes [OF d this] G_Direct show ?thesis by (simp add: todo_gen_def)
next
  case (G_Pooled rel st)
  obtain st' out0 evs0 where r: "conn_resume f mk options st = (st', out0, evs0)"
    by (cases "conn_resume f mk options st") auto
  from assms(6) G_Pooled r have d: "pooled_step rel (st', out0, evs0) = (g', out, evs)"
    by (simp add: gen_next_def)
  from assms(5) G_Pooled have "ok_conn st" by (simp add: ok_gen_def)
  from conn_resume_sizes [OF assms(1-4) this r]
  have "ok_conn st'"
    "advances sz out0 (todo_conn p st) (todo_conn p st') (st' = CG_Done)"
    by simp_all
  from pooled_step_sizes [OF d this] G_Pooled show ?thesis by (simp add: todo_gen_def)
next
  case G_Done
  with assms(6) show ?thesis by (auto simp: gen_next_def ok_gen_def todo_gen_def)
qed

lemma gen_next_start_sizes:
  assumes "0 < p" and "\<forall>cols c. length (f cols c) = length c" and "\<forall>cols b. sz (mk cols b) = length b"
    and "effectiveRowsPerChunk options = int p"
    and "cursor_opened client = Some result" and "sr_error result = None"
    and "gen_next f mk client options G_Start = (g', out, evs)"
  shows "ok_gen g' \<and> (advances sz out (sizes_spec p (length (concat (sr_chunks result)))) (todo_gen p g') (g' = G_Done))"
proof (cases client)
  case (Conn connection)
  obtain st' out0 evs0 where r: "conn_start f mk options connection = (st', out0, evs0)"
    by (cases "conn_start f mk options connection") auto
  from assms(7) Conn r have d: "direct_step (st', out0, evs0) = (g', out, evs)"
    by (simp add: gen_next_def)
  from assms(5) Conn have "cursor_of connection = Some result"
    by (simp add: cursor_opened_def connection_used_def)
  from conn_start_sizes [OF assms(1-4) this assms(6) r]
  have "ok_conn st'"
    "advances sz out0 (sizes_spec p (length (concat (sr_chunks result)))) (todo_conn p st') (st' = CG_Done)"
    by simp_all
  from direct_step_sizes [OF d this] show ?thesis .
next
  case (PoolClient acquire rel)
  with assms(5) obtain connection where a: "acquire = Inr connection"
    and c: "cursor_of connection = Some result"
    by (auto simp: cursor_opened_def connection_used_def split: sum.splits)
  obtain st' out0 evs0 where r: "conn_start f mk options connection = (st', out0, evs0)"
    by (cases "conn_start f mk options connection") auto
  obtain g1 out1 evs1 where d: "pooled_step rel (st', out0, evs0) = (g1, out1, evs1)"
    by (cases "pooled_step rel (st', out0, evs0)") auto
  from assms(7) PoolClient a r d have e: "g' = g1" "out = out1"
    by (simp_all add: gen_next_def)
  from conn_start_sizes [OF assms(1-4) c assms(6) r]
  have "ok_conn st'"
    "advances sz out0 (sizes_spec p (length (concat (sr_chunks result)))) (todo_conn p st') (st' = CG_Done)"
    by simp_all
  from pooled_step_sizes [OF d this] e show ?thesis by simp
qed

lemma yielded_Cons:
  "yielded (out # outs) = (case out of Yield y \<Rightarrow> y # yielded outs | _ \<Rightarrow> yielded outs)"
  by (simp add: yielded_def split: step.splits)

lemma drive_sizes:
  assumes "0 < p" and "\<forall>cols c. length (f cols c) = length c" and "\<forall>cols b. sz (mk cols b) = length b"
    and "effectiveRowsPerChunk options = int p"
  shows "ok_gen g \<Longrightarrow> drive (gen_next f mk client options) (replicate n Next) g = (g', outs, evs) \<Longrightarrow>
     map sz (yielded outs) = take n (todo_gen p g) \<and> (length (todo_gen p g) < n \<longrightarrow> g' = G_Done)"
proof (induction n arbitrary: g g' outs evs)
  case 0
  then show ?case by (simp add: yielded_def)
next
  case (Suc n)
  obtain g1 out1 evs1 where n: "gen_next f mk client options g = (g1, out1, evs1)"
    by (cases "gen_next f mk client options g") auto
  obtain g2 outs2 evs2 where
    d: "drive (gen_next f mk client options) (replicate n Next) g1 = (g2, outs2, evs2)"
    by (cases "drive (gen_next f mk client options) (replicate n Next) g1") auto
  from Suc.prems(2) n d have e: "g' = g2" "outs = out1 # outs2" by simp_all
  from gen_next_sizes [OF assms Suc.prems(1) n]
  have ok: "ok_gen g1"
    and st: "advances sz out1 (todo_gen p g) (todo_gen p g1) (g1 = G_Done)"
    by simp_all
  from Suc.IH [OF ok d]
  have ih: "map sz (yielded outs2) = take n (todo_gen p g1)"
    "length (todo_gen p g1) < n \<longrightarrow> g2 = G_Done" by simp_all
  show ?case
  proof (cases out1)
    case (Yield y)
    with st have "todo_gen p g = sz y # todo_gen p g1" by simp
    with ih e Yield show ?thesis by (simp add: yielded_Cons)
  next
    case Return
    with st have t: "todo_gen p g = []" "g1 = G_Done" by simp_all
    with ih have "map sz (yielded outs2) = []" "0 < n \<longrightarrow> g2 = G_Done"
      by (simp_all add: todo_gen_def)
    moreover have "n = 0 \<longrightarrow> g2 = G_Done" using d t by auto
    ultimately show ?thesis using e t Return by (auto simp: yielded_Cons)
  next
    case (Throw x)
    with st have t: "todo_gen p g = []" "g1 = G_Done" by simp_all
    with ih have "map sz (yielded outs2) = []" "0 < n \<longrightarrow> g2 = G_Done"
      by (simp_all add: todo_gen_def)
    moreover have "n = 0 \<longrightarrow> g2 = G_Done" using d t by auto
    ultimately show ?thesis using e t Throw by (auto simp: yielded_Cons)
  qed
qed

lemma drive_start_sizes:
  assumes "0 < p" and "\<forall>cols c. length (f cols c) = length c" and "\<forall>cols b. sz (mk cols b) = length b"
    and "effectiveRowsPerChunk options = int p"
    and "cursor_opened client = Some result" and "sr_error result = None"
    and "drive (gen_next f mk client options) (replicate n Next) G_Start = (g', outs, evs)"
    and "length (sizes_spec p (length (concat (sr_chunks result)))) < n"
  shows "map sz (yielded outs) = sizes_spec p (length (concat (sr_chunks result))) \<and> g' = G_Done"
proof -
  from assms(8) obtain m where m: "n = Suc m" by (cases n) auto
  obtain g1 out1 evs1 where n: "gen_next f mk client options G_Start = (g1, out1, evs1)"
    by (cases "gen_next f mk client options G_Start") auto
  obtain g2 outs2 evs2 where
    d: "drive (gen_next f mk client options) (replicate m Next) g1 = (g2, outs2, evs2)"
    by (cases "drive (gen_next f mk client options) (replicate m Next) g1") auto
  from assms(7) m n d have e: "g' = g2" "outs = out1 # outs2" by simp_all
  define T where "T = sizes_spec p (length (concat (sr_chunks result)))"
  from gen_next_start_sizes [OF assms(1-6) n]
  have ok: "ok_gen g1"
    and st: "advances sz out1 (T) (todo_gen p g1) (g1 = G_Done)"
    by (simp_all add: T_def)
  from drive_sizes [OF assms(1-4) ok d]
  have ih: "map sz (yielded outs2) = take m (todo_gen p g1)"
    "length (todo_gen p g1) < m \<longrightarrow> g2 = G_Done" by simp_all
  have "map sz (yielded outs) = T \<and> g' = G_Done"
  proof (cases out1)
    case (Yield y)
    with st have "T = sz y # todo_gen p g1" by simp
    with ih e Yield assms(8) m show ?thesis by (simp add: yielded_Cons T_def)
  next
    case Return
    with st have t: "T = []" "g1 = G_Done" by simp_all
    with ih have "map sz (yielded outs2) = []" "0 < m \<longrightarrow> g2 = G_Done"
      by (simp_all add: todo_gen_def)
    moreover have "m = 0 \<longrightarrow> g2 = G_Done" using d t by auto
    ultimately show ?thesis using e t Return by (auto simp: yielded_Cons)
  next
    case (Throw x)
    with st have t: "T = []" "g1 = G_Done" by simp_all
    with ih have "map sz (yielded outs2) = []" "0 < m \<longrightarrow> g2 = G_Done"
      by (simp_all add: todo_gen_def)
    moreover have "m = 0 \<longrightarrow> g2 = G_Done" using d t by auto
    ultimately show ?thesis using e t Throw by (auto simp: yielded_Cons)
  qed
  then show ?thesis by (simp add: T_def)
qed

lemma length_sizes_spec:
  assumes "0 < p"
  shows "length (sizes_spec p R) = (R + p - 1) div p"
proof -
  define q r where "q = R div p" and "r = R mod p"
  have R: "R = p * q + r" and r: "r < p"
    using assms by (simp_all add: q_def r_def)
  show ?thesis
  proof (cases "r = 0")
    case True
    have "(R + p - 1) div p = q"
    proof (rule div_nat_eqI)
      show "p * q \<le> R + p - 1" using R assms by simp
      show "R + p - 1 < p * Suc q" using R True assms by simp
    qed
    with True show ?thesis by (simp add: sizes_spec_def q_def r_def)
  next
    case False
    have "(R + p - 1) div p = Suc q"
    proof (rule div_nat_eqI)
      show "p * Suc q \<le> R + p - 1" using R False by simp
      show "R + p - 1 < p * Suc (Suc q)" using R r by simp
    qed
    with False show ?thesis by (simp add: sizes_spec_def q_def r_def)
  qed
qed

lemma sum_list_sizes_spec: "sum_list (sizes_spec p R) = R"
proof -
  have "R div p * p + R mod p = R" by simp
  then show ?thesis by (auto simp: sizes_spec_def sum_list_replicate)
qed

lemma nth_sizes_spec: "Suc i < length (sizes_spec p R) \<Longrightarrow> sizes_spec p R ! i = p"
  by (auto simp: sizes_spec_def nth_append split: if_splits)

lemma last_sizes_spec:
  "sizes_spec p R \<noteq> [] \<Longrightarrow> last (sizes_spec p R) = (if R mod p = 0 then p else R mod p)"
  by (auto simp: sizes_spec_def)

lemma effectiveRowsPerChunk_pos: "0 < effectiveRowsPerChunk options"
  by (simp add: effectiveRowsPerChunk_def split: option.splits)

text \<open>
  Claim C9.  A cursor that is opened and does not raise holds \<open>M\<close> rows in all; \<open>P\<close> is
  \<open>rowsPerChunk\<close>, or 100000 when it is missing or not positive.  A consumer that asks
  more than \<open>ceil(M/P)\<close> times has exhausted the generator and has received exactly
  \<open>ceil(M/P)\<close> chunks (\<open>ns\<close> are their sizes, in order): they sum to \<open>M\<close>, every chunk
  but the last has \<open>P\<close> rows, and the last has \<open>M mod P\<close> rows, or \<open>P\<close> when \<open>P\<close> divides
  \<open>M\<close>.  \<open>rowsPerChunk\<close> is an integer here.
\<close>

theorem batches_chunk_sizes:
  assumes "cursor_opened client = Some result" and "sr_error result = None"
    and "M = length (concat (sr_chunks result))"
    and "P = nat (effectiveRowsPerChunk options)"
    and "(M + P - 1) div P < n"
    and "drive (executeInBatches client options) (replicate n Next) G_Start = (g, outs, evs)
           \<and> ns = map length (yielded outs) \<and> finished = (g = G_Done)
       \<or> drive (executeInBatchesRaw client options) (replicate n Next) G_Start = (g', outs', evs)
           \<and> ns = map (\<lambda>chunk. length (rc_rows chunk)) (yielded outs') \<and> finished = (g' = G_Done)"
  shows "P = (case rowsPerChunk options of
                None \<Rightarrow> 100000
              | Some k \<Rightarrow> if 0 < k then nat k else 100000)
       \<and> length ns = (M + P - 1) div P
       \<and> sum_list ns = M
       \<and> (\<forall>i. Suc i < length ns \<longrightarrow> ns ! i = P)
       \<and> (ns \<noteq> [] \<longrightarrow> last ns = (if M mod P = 0 then P else M mod P))
       \<and> finished"
proof -
  from assms(4) effectiveRowsPerChunk_pos [of options]
  have p: "0 < P" "effectiveRowsPerChunk options = int P" by simp_all
  from assms(5) p(1) have n: "length (sizes_spec P (length (concat (sr_chunks result)))) < n"
    by (simp add: length_sizes_spec assms(3))
  have "ns = sizes_spec P M \<and> finished"
    using assms(6)
  proof
    assume a: "drive (executeInBatches client options) (replicate n Next) G_Start = (g, outs, evs)
           \<and> ns = map length (yielded outs) \<and> finished = (g = G_Done)"
    from drive_start_sizes [OF p(1) _ _ p(2) assms(1,2) a [THEN conjunct1, unfolded executeInBatches_def] n,
        of length] a
    show ?thesis by (simp add: mapRowsToObjects_def assms(3))
  next
    assume a: "drive (executeInBatchesRaw client options) (replicate n Next) G_Start = (g', outs', evs)
           \<and> ns = map (\<lambda>chunk. length (rc_rows chunk)) (yielded outs') \<and> finished = (g' = G_Done)"
    from drive_start_sizes [OF p(1) _ _ p(2) assms(1,2) a [THEN conjunct1, unfolded executeInBatchesRaw_def] n,
        of "\<lambda>chunk. length (rc_rows chunk)"] a
    show ?thesis by (simp add: assms(3))
  qed
  moreover have "P = (case rowsPerChunk options of None \<Rightarrow> 100000
              | Some k \<Rightarrow> if 0 < k then nat k else 100000)"
    by (simp add: assms(4) effectiveRowsPerChunk_def split: option.splits)
  ultimately show ?thesis
    using p(1) by (simp add: length_sizes_spec sum_list_sizes_spec nth_sizes_spec last_sizes_spec)
qed

text \<open>The repository's test: three rows in chunks of two.\<close>

theorem batches_chunk_sizes_witness:
  "drive (executeInBatchesRaw
       (Conn (Inr \<lparr>sr_chunks = [[[1::nat], [2], [3]]], sr_error = None,
           sr_columnNames = Inr [''id''], sr_deduplicatedColumnNames = Some (Inr [''id'']),
           sr_close = Some None, sr_cancel = None\<rparr>))
       \<lparr>rowsPerChunk = Some 2\<rparr>) [Next, Next, Next] G_Start
     = (G_Done,
        [Yield \<lparr>rc_columns = [''id''], rc_rows = [[1], [2]]\<rparr>,
         Yield \<lparr>rc_columns = [''id''], rc_rows = [[3]]\<rparr>, Return],
        [Streamed, CursorClose])
   \<and> length [2, 1::nat] = (3 + 2 - 1) div 2
   \<and> sum_list [2, 1::nat] = 3
   \<and> [2, 1::nat] ! 0 = 2
   \<and> last [2, 1::nat] = 3 mod 2"
proof -
  define cur :: "nat StreamResultLike" where
    "cur = \<lparr>sr_chunks = [[[1::nat], [2], [3]]], sr_error = None,
           sr_columnNames = Inr [''id''], sr_deduplicatedColumnNames = Some (Inr [''id'']),
           sr_close = Some None, sr_cancel = None\<rparr>"
  have run: "drive (executeInBatchesRaw (Conn (Inr cur)) \<lparr>rowsPerChunk = Some 2\<rparr>)
       (replicate (Suc (Suc (Suc 0))) Next) (G_Start :: (nat, nat row) gen)
     = (G_Done,
        [Yield \<lparr>rc_columns = [''id''], rc_rows = [[1], [2]]\<rparr>,
         Yield \<lparr>rc_columns = [''id''], rc_rows = [[3]]\<rparr>, Return],
        [Streamed, CursorClose])"
    by (simp add: cur_def executeInBatchesRaw_def gen_next_def direct_step_def
        conn_start_def conn_resume_def in_loop_def after_loop_def effectiveRowsPerChunk_def
        closeStreamResult_def Let_def)
  have ys: "map (\<lambda>chunk. length (rc_rows chunk))
      (yielded [Yield \<lparr>rc_columns = [''id''], rc_rows = [[1::nat], [2]]\<rparr>,
         Yield \<lparr>rc_columns = [''id''], rc_rows = [[3]]\<rparr>, Return]) = [2, 1]"
    by (simp add: yielded_def)
  have opened: "cursor_opened (Conn (Inr cur)) = Some cur"
    by (simp add: cursor_opened_def connection_used_def cursor_of_def cur_def)
  have noerr: "sr_error cur = None" by (simp add: cur_def)
  have m: "(3::nat) = length (concat (sr_chunks cur))" by (simp add: cur_def)
  have p: "(2::nat) = nat (effectiveRowsPerChunk \<lparr>rowsPerChunk = Some 2\<rparr>)"
    by (simp add: effectiveRowsPerChunk_def)
  have n: "((3::nat) + 2 - 1) div 2 < Suc (Suc (Suc 0))" by simp
  have d: "drive (executeInBatches (Conn (Inr cur)) \<lparr>rowsPerChunk = Some 2\<rparr>)
             (replicate (Suc (Suc (Suc 0))) Next) G_Start = (G_Start, [], [Streamed, CursorClose])
           \<and> [2, 1] = map length (yielded []) \<and> True = (G_Start = G_Done)
       \<or> drive (executeInBatchesRaw (Conn (Inr cur)) \<lparr>rowsPerChunk = Some 2\<rparr>)
             (replicate (Suc (Suc (Suc 0))) Next) G_Start
           = (G_Done, [Yield \<lparr>rc_columns = [''id''], rc_rows = [[1], [2]]\<rparr>,
                Yield \<lparr>rc_columns = [''id''], rc_rows = [[3]]\<rparr>, Return], [Streamed, CursorClose])
           \<and> [2, 1] = map (\<lambda>chunk. length (rc_rows chunk))
                 (yielded [Yield \<lparr>rc_columns = [''id''], rc_rows = [[1::nat], [2]]\<rparr>,
                    Yield \<lparr>rc_columns = [''id''], rc_rows = [[3]]\<rparr>, Return])
           \<and> True = (G_Done = (G_Done :: (nat, nat row) gen))"
    using run ys by simp
  from batches_chunk_sizes [OF opened noerr m p n d]
  have "length [2, 1::nat] = (3 + 2 - 1) div 2" "sum_list [2, 1::nat] = 3"
    "\<forall>i. Suc i < length [2, 1::nat] \<longrightarrow> [2, 1::nat] ! i = 2"
    "[2, 1::nat] \<noteq> [] \<longrightarrow> last [2, 1::nat] = (if (3::nat) mod 2 = 0 then 2 else 3 mod 2)"
    by blast+
  with run show ?thesis by (simp add: cur_def)
qed

section \<open>session.ts: transactions\<close>

subsection \<open>Strings\<close>

text \<open>\<open>toLowerCase\<close> on the ASCII letters, \<open>startsWith\<close> and \<open>includes\<close> (here \<open>str_includes\<close>).\<close>

definition lower_char :: "char \<Rightarrow> char" where
  "lower_char c =
     (let n = (of_char c :: nat) in if 65 \<le> n \<and> n \<le> 90 then char_of (n + 32) else c)"

definition toLowerCase :: "string \<Rightarrow> string" where
  "toLowerCase s = map lower_char s"

fun startsWith :: "string \<Rightarrow> string \<Rightarrow> bool" where
  "startsWith s [] = True"
| "startsWith [] (c # t) = False"
| "startsWith (a # s) (c # t) = (a = c \<and> startsWith s t)"

fun str_includes :: "string \<Rightarrow> string \<Rightarrow> bool" where
  "str_includes [] t = (t = [])"
| "str_includes (a # s) t = (startsWith (a # s) t \<or> str_includes s t)"

fun join :: "string \<Rightarrow> string list \<Rightarrow> string" where
  "join sep [] = []"
| "join sep [x] = x"
| "join sep (x # y # xs) = x @ sep @ join sep (y # xs)"

subsection \<open>Errors of a savepoint, transaction configuration\<close>

text \<open>
  The message of an error; a thrown value that is not an \<open>Error\<close> has none.
\<close>

definition VALID_TRANSACTION_ISOLATION_LEVELS :: "string list" where
  "VALID_TRANSACTION_ISOLATION_LEVELS =
     [''read uncommitted'', ''read committed'', ''repeatable read'', ''serializable'']"

definition VALID_TRANSACTION_ACCESS_MODES :: "string list" where
  "VALID_TRANSACTION_ACCESS_MODES = [''read only'', ''read write'']"

definition quoted :: "string \<Rightarrow> string" where
  "quoted v = [char_of (34 :: nat)] @ v @ [char_of (34 :: nat)]"

definition message :: "error \<Rightarrow> string option" where
  "message e =
     (case e of
        PoolClosed \<Rightarrow> Some ''DuckDB connection pool is closed''
      | QueueFull k \<Rightarrow>
          Some (''DuckDB connection pool queue is full (max '' @ show_int k @ '' waiting requests)'')
      | AcquireTimeout t \<Rightarrow>
          Some (''DuckDB connection pool acquire timeout after '' @ show_int t @ ''ms'')
      | InvalidIsolationLevel v \<Rightarrow>
          Some (''Invalid transaction isolation level '' @ quoted v @ ''. Expected one of: ''
                @ join '', '' VALID_TRANSACTION_ISOLATION_LEVELS @ ''.'')
      | InvalidAccessMode v \<Rightarrow>
          Some (''Invalid transaction access mode '' @ quoted v @ ''. Expected one of: ''
                @ join '', '' VALID_TRANSACTION_ACCESS_MODES @ ''.'')
      | InvalidDeferrable v \<Rightarrow>
          Some (''Invalid transaction deferrable flag '' @ quoted v @ ''. Expected a boolean.'')
      | TransactionRollbackError \<Rightarrow> Some ''Rollback''
      | Failure m \<Rightarrow> Some m
      | Thrown v \<Rightarrow> None)"

definition isSavepointSyntaxError :: "error \<Rightarrow> bool" where
  "isSavepointSyntaxError e =
     (case message e of
        None \<Rightarrow> False
      | Some m \<Rightarrow>
          if m = [] then False
          else str_includes (toLowerCase m) ''savepoint''
               \<and> str_includes (toLowerCase m) ''syntax error'')"

text \<open>
  \<open>PgTransactionConfig\<close> as a caller without types can pass it: a string or nothing for
  the isolation level and the access mode, and for \<open>deferrable\<close> nothing, a boolean, or
  some other value (with what \<open>String(value)\<close> gives).
\<close>

datatype deferrable_value = Undefined | Boolean bool | NotBoolean string

record PgTransactionConfig =
  isolationLevel :: "string option"
  accessMode :: "string option"
  deferrable :: deferrable_value

text \<open>A string is truthy when it is there and not empty.\<close>

definition truthy :: "string option \<Rightarrow> bool" where
  "truthy v = (case v of None \<Rightarrow> False | Some s \<Rightarrow> s \<noteq> [])"

definition getTransactionConfigSQL :: "PgTransactionConfig \<Rightarrow> error + string" where
  "getTransactionConfigSQL config =
     (if truthy (isolationLevel config)
         \<and> the (isolationLevel config) \<notin> set VALID_TRANSACTION_ISOLATION_LEVELS
      then Inl (InvalidIsolationLevel (the (isolationLevel config)))
      else if truthy (accessMode config)
         \<and> the (accessMode config) \<notin> set VALID_TRANSACTION_ACCESS_MODES
      then Inl (InvalidAccessMode (the (accessMode config)))
      else (case deferrable config of
              NotBoolean v \<Rightarrow> Inl (InvalidDeferrable v)
            | _ \<Rightarrow>
              Inr (join '' ''
                ((if truthy (isolationLevel config)
                  then [''isolation level '' @ the (isolationLevel config)] else [])
                 @ (if truthy (accessMode config) then [the (accessMode config)] else [])
                 @ (case deferrable config of
                      Boolean b \<Rightarrow> [if b then ''deferrable'' else ''not deferrable'']
                    | _ \<Rightarrow> [])))))"

subsection \<open>The dialect's savepoint flag\<close>

text \<open>
  Modelled from the spec: \<open>dialect.ts\<close> is not among the sources; the flag of a dialect
  instance is tri-state, \<open>{unknown, supported, unsupported}\<close>.
\<close>

datatype capability = Unknown | Supported | Unsupported

text \<open>
  Modelled from the spec: \<open>areSavepointsUnsupported\<close> of the missing \<open>dialect.ts\<close>; the flag
  is consulted for \<open>unsupported\<close>.
\<close>

definition areSavepointsUnsupported :: "capability \<Rightarrow> bool" where
  "areSavepointsUnsupported flag = (flag = Unsupported)"

text \<open>
  Modelled from the spec: \<open>markSavepointsSupported\<close> of the missing \<open>dialect.ts\<close>; a
  \<open>SAVEPOINT\<close> that succeeds marks the capability \<open>supported\<close>.
\<close>

definition markSavepointsSupported :: "capability \<Rightarrow> capability" where
  "markSavepointsSupported flag = Supported"

text \<open>
  Modelled from the spec: \<open>markSavepointsUnsupported\<close> of the missing \<open>dialect.ts\<close>; a
  \<open>SAVEPOINT\<close> that fails as not supported sets the capability to \<open>unsupported\<close>.
\<close>

definition markSavepointsUnsupported :: "capability \<Rightarrow> capability" where
  "markSavepointsUnsupported flag = Unsupported"

subsection \<open>The session of a transaction\<close>

text \<open>
  What a transaction works on: the statements that have reached the engine on its
  connection, in order; the \<open>rollbackOnly\<close> field of its session; the flag of the
  dialect.  The engine answers a statement, given the statements before it, by
  accepting it or raising.  \<open>execute\<close> of the session (inherited from the ORM) sends
  the statement.
\<close>

record tx_state =
  sent :: "string list"
  rollbackOnly :: bool
  savepoints :: capability

type_synonym engine = "string list \<Rightarrow> string \<Rightarrow> error option"

type_synonym 'r callback = "nat \<Rightarrow> tx_state \<Rightarrow> (error + 'r) \<times> tx_state"

definition execute :: "engine \<Rightarrow> string \<Rightarrow> tx_state \<Rightarrow> (error + unit) \<times> tx_state" where
  "execute engine stmt st =
     (case engine (sent st) stmt of
        Some e \<Rightarrow> (Inl e, st\<lparr>sent := sent st @ [stmt]\<rparr>)
      | None \<Rightarrow> (Inr (), st\<lparr>sent := sent st @ [stmt]\<rparr>))"

definition markRollbackOnly :: "tx_state \<Rightarrow> tx_state" where
  "markRollbackOnly st = st\<lparr>rollbackOnly := True\<rparr>"

definition isRollbackOnly :: "tx_state \<Rightarrow> bool" where
  "isRollbackOnly st = rollbackOnly st"

definition setTransaction :: "engine \<Rightarrow> PgTransactionConfig \<Rightarrow> tx_state
    \<Rightarrow> (error + unit) \<times> tx_state" where
  "setTransaction engine config st =
     (case getTransactionConfigSQL config of
        Inl e \<Rightarrow> (Inl e, st)
      | Inr s \<Rightarrow> execute engine (''set transaction '' @ s) st)"

subsection \<open>\<open>DuckDBSession.transaction\<close>\<close>

text \<open>
  The statements before the inner \<open>try\<close>: \<open>BEGIN\<close>, then \<open>setTransaction\<close> when there is
  a configuration.
\<close>

definition tx_begin :: "engine \<Rightarrow> PgTransactionConfig option \<Rightarrow> tx_state
    \<Rightarrow> (error + unit) \<times> tx_state" where
  "tx_begin engine config st =
     (case execute engine ''BEGIN TRANSACTION;'' st of
        (Inl e, st1) \<Rightarrow> (Inl e, st1)
      | (Inr u, st1) \<Rightarrow>
          (case config of None \<Rightarrow> (Inr (), st1) | Some c \<Rightarrow> setTransaction engine c st1))"

text \<open>
  The inner \<open>try\<close> block: the callback on the transaction (nesting index 0), then
  \<open>rollback\<close> and a \<open>TransactionRollbackError\<close> when the session is rollback-only,
  \<open>commit\<close> and the result otherwise.
\<close>

definition tx_try :: "engine \<Rightarrow> 'r callback \<Rightarrow> tx_state \<Rightarrow> (error + 'r) \<times> tx_state" where
  "tx_try engine transaction st =
     (case transaction 0 st of
        (Inl e, st1) \<Rightarrow> (Inl e, st1)
      | (Inr result, st1) \<Rightarrow>
          if isRollbackOnly st1 then
            (case execute engine ''rollback'' st1 of
               (Inl e, st2) \<Rightarrow> (Inl e, st2)
             | (Inr u, st2) \<Rightarrow> (Inl TransactionRollbackError, st2))
          else
            (case execute engine ''commit'' st1 of
               (Inl e, st2) \<Rightarrow> (Inl e, st2)
             | (Inr u, st2) \<Rightarrow> (Inr result, st2)))"

text \<open>Its \<open>catch\<close>: \<open>rollback\<close>, then the error again.\<close>

definition tx_try_catch :: "engine \<Rightarrow> 'r callback \<Rightarrow> tx_state \<Rightarrow> (error + 'r) \<times> tx_state" where
  "tx_try_catch engine transaction st =
     (case tx_try engine transaction st of
        (Inr result, st1) \<Rightarrow> (Inr result, st1)
      | (Inl error, st1) \<Rightarrow>
          (case execute engine ''rollback'' st1 of
             (Inl e, st2) \<Rightarrow> (Inl e, st2)
           | (Inr u, st2) \<Rightarrow> (Inl error, st2)))"

text \<open>
  The client of the session: a connection, or a pool with what its \<open>acquire\<close> and its
  \<open>release\<close> do (\<open>None\<close>: the call returns).
\<close>

datatype tx_client = OnConnection | OnPool "error option" "error option"

text \<open>
  The whole method.  The transaction has a session of its own (\<open>rollbackOnly\<close> false)
  on the pinned connection; the \<open>finally\<close> releases that connection, and an error of
  \<open>release\<close> replaces the outcome.
\<close>

definition tx_outer :: "engine \<Rightarrow> 'r callback \<Rightarrow> PgTransactionConfig option \<Rightarrow> tx_state
    \<Rightarrow> (error + 'r) \<times> tx_state" where
  "tx_outer engine transaction config st =
     (case tx_begin engine config st of
        (Inl e, st1) \<Rightarrow> (Inl e, st1)
      | (Inr u, st1) \<Rightarrow> tx_try_catch engine transaction st1)"

definition DuckDBSession_transaction :: "engine \<Rightarrow> tx_client \<Rightarrow> capability \<Rightarrow> 'r callback
    \<Rightarrow> PgTransactionConfig option \<Rightarrow> (error + 'r) \<times> tx_state \<times> event list" where
  "DuckDBSession_transaction engine client flag transaction config =
     (let st = \<lparr>sent = [], rollbackOnly = False, savepoints = flag\<rparr> in
      case client of
        OnConnection \<Rightarrow>
          (let (r, st') = tx_outer engine transaction config st in (r, st', []))
      | OnPool acquire rel \<Rightarrow>
          (case acquire of
             Some e \<Rightarrow> (Inl e, st, [])
           | None \<Rightarrow>
               (let (r, st') = tx_outer engine transaction config st
                in ((case rel of Some e \<Rightarrow> Inl e | None \<Rightarrow> r), st', [Acquired, Released]))))"

subsection \<open>\<open>DuckDBTransaction.transaction\<close>: nested transactions\<close>

text \<open>
  \<open>runNestedWithoutSavepoint\<close>: the callback runs on the nested transaction, and the
  \<open>catch\<close> of the promise it returns marks the session rollback-only.  The callback is an
  \<open>async\<close> function: it fails by rejecting its promise, which is what \<open>Inl\<close> stands for
  (a callback that throws before it returns a promise is outside the model).
\<close>

definition runNestedWithoutSavepoint :: "'r callback \<Rightarrow> nat \<Rightarrow> tx_state
    \<Rightarrow> (error + 'r) \<times> tx_state" where
  "runNestedWithoutSavepoint transaction nestedIndex st =
     (case transaction (nestedIndex + 1) st of
        (Inl error, st1) \<Rightarrow> (Inl error, markRollbackOnly st1)
      | (Inr result, st1) \<Rightarrow> (Inr result, st1))"

text \<open>
  The second \<open>try\<close> of the method, entered with the savepoint created: the callback,
  then \<open>release savepoint\<close>; its \<open>catch\<close> rolls back to the savepoint, marks the session
  rollback-only and raises the error again.
\<close>

definition nested_try :: "engine \<Rightarrow> 'r callback \<Rightarrow> nat \<Rightarrow> string \<Rightarrow> tx_state
    \<Rightarrow> (error + 'r) \<times> tx_state" where
  "nested_try engine transaction nestedIndex savepoint st =
     (case (case transaction (nestedIndex + 1) st of
              (Inl e, st1) \<Rightarrow> (Inl e, st1)
            | (Inr result, st1) \<Rightarrow>
                (case execute engine (''release savepoint '' @ savepoint) st1 of
                   (Inl e, st2) \<Rightarrow> (Inl e, st2)
                 | (Inr u, st2) \<Rightarrow> (Inr result, st2))) of
        (Inr result, st1) \<Rightarrow> (Inr result, st1)
      | (Inl error, st1) \<Rightarrow>
          (case execute engine (''rollback to savepoint '' @ savepoint) st1 of
             (Inl e, st2) \<Rightarrow> (Inl e, st2)
           | (Inr u, st2) \<Rightarrow> (Inl error, markRollbackOnly st2)))"

definition DuckDBTransaction_transaction :: "engine \<Rightarrow> 'r callback \<Rightarrow> nat \<Rightarrow> tx_state
    \<Rightarrow> (error + 'r) \<times> tx_state" where
  "DuckDBTransaction_transaction engine transaction nestedIndex st =
     (let savepoint = ''drizzle_savepoint_'' @ show_nat (nestedIndex + 1) in
      if areSavepointsUnsupported (savepoints st)
      then runNestedWithoutSavepoint transaction nestedIndex st
      else
        (case execute engine (''savepoint '' @ savepoint) st of
           (Inl error, st1) \<Rightarrow>
             if \<not> isSavepointSyntaxError error then (Inl error, st1)
             else runNestedWithoutSavepoint transaction nestedIndex
                    (st1\<lparr>savepoints := markSavepointsUnsupported (savepoints st1)\<rparr>)
         | (Inr u, st1) \<Rightarrow>
             nested_try engine transaction nestedIndex savepoint
               (st1\<lparr>savepoints := markSavepointsSupported (savepoints st1)\<rparr>)))"


subsection \<open>An engine that refuses to end a transaction that is not open\<close>

text \<open>
  DuckDB raises on \<open>ROLLBACK\<close> and on \<open>COMMIT\<close> when no transaction is active.
  \<open>in_transaction\<close> reads from the statements sent so far whether one is.
\<close>

definition in_transaction :: "string list \<Rightarrow> bool" where
  "in_transaction h =
     foldl (\<lambda>active s. if s = ''BEGIN TRANSACTION;'' then True
                         else if s = ''commit'' \<or> s = ''rollback'' then False else active)
       False h"

definition strict_engine :: engine where
  "strict_engine h s =
     (if s = ''rollback'' \<and> \<not> in_transaction h
      then Some (Failure ''TransactionContext Error: cannot rollback - no transaction is active'')
      else if s = ''commit'' \<and> \<not> in_transaction h
      then Some (Failure ''TransactionContext Error: cannot commit - no transaction is active'')
      else None)"

subsection \<open>Transaction configuration\<close>

lemma execute_sent: "execute engine stmt st = (r, st') \<Longrightarrow>
    st' = st\<lparr>sent := sent st @ [stmt]\<rparr> \<and> r = (case engine (sent st) stmt of Some e \<Rightarrow> Inl e | None \<Rightarrow> Inr ())"
  by (auto simp: execute_def split: option.splits)

lemma getTransactionConfigSQL_invalid:
  assumes "(\<exists>v. isolationLevel cfg = Some v \<and> v \<noteq> [] \<and> v \<notin> set VALID_TRANSACTION_ISOLATION_LEVELS)
         \<or> (\<exists>v. accessMode cfg = Some v \<and> v \<noteq> [] \<and> v \<notin> set VALID_TRANSACTION_ACCESS_MODES)
         \<or> (\<exists>v. deferrable cfg = NotBoolean v)"
  shows "\<exists>v. getTransactionConfigSQL cfg = Inl (InvalidIsolationLevel v)
           \<or> getTransactionConfigSQL cfg = Inl (InvalidAccessMode v)
           \<or> getTransactionConfigSQL cfg = Inl (InvalidDeferrable v)"
  using assms by (auto simp: getTransactionConfigSQL_def truthy_def split: deferrable_value.splits)

lemma tx_outer_invalid:
  assumes "getTransactionConfigSQL cfg = Inl err"
  shows "tx_outer engine cb (Some cfg) st =
     (case engine (sent st) ''BEGIN TRANSACTION;'' of
        Some e \<Rightarrow> (Inl e, st\<lparr>sent := sent st @ [''BEGIN TRANSACTION;'']\<rparr>)
      | None \<Rightarrow> (Inl err, st\<lparr>sent := sent st @ [''BEGIN TRANSACTION;'']\<rparr>))"
  using assms by (simp add: tx_outer_def tx_begin_def setTransaction_def execute_def split: option.splits)

text \<open>
  What the code does with a configuration that \<open>getTransactionConfigSQL\<close> rejects (a
  non-empty isolation level or access mode outside the allow-lists, a \<open>deferrable\<close> that
  is not a boolean): \<open>setTransaction\<close> is awaited after \<open>BEGIN TRANSACTION\<close> and before
  the inner \<open>try\<close>, so the error leaves the method past the \<open>catch\<close> that rolls back.
  When the engine accepts \<open>BEGIN TRANSACTION\<close>, that statement has reached it and nothing
  follows it, no \<open>rollback\<close> either.
\<close>

lemma invalid_config_sends_begin_only:
  assumes "(\<exists>v. isolationLevel cfg = Some v \<and> v \<noteq> [] \<and> v \<notin> set VALID_TRANSACTION_ISOLATION_LEVELS)
         \<or> (\<exists>v. accessMode cfg = Some v \<and> v \<noteq> [] \<and> v \<notin> set VALID_TRANSACTION_ACCESS_MODES)
         \<or> (\<exists>v. deferrable cfg = NotBoolean v)"
    and "client = OnConnection \<or> client = OnPool None None"
    and "engine [] ''BEGIN TRANSACTION;'' = None"
    and "DuckDBSession_transaction engine client flag transaction (Some cfg) = (r, st, evs)"
  shows "r = getTransactionConfigSQL cfg \<and> (\<exists>err. r = Inl err)
       \<and> sent st = [''BEGIN TRANSACTION;''] \<and> in_transaction (sent st)"
proof -
  from getTransactionConfigSQL_invalid [OF assms(1)] obtain err where
    e: "getTransactionConfigSQL cfg = Inl err"
    by auto
  from assms(2-4) show ?thesis
    by (auto simp: DuckDBSession_transaction_def tx_outer_invalid [OF e] e Let_def in_transaction_def
        split: tx_client.splits option.splits)
qed

text \<open>
  Claim C3 against the code, on a pool and with the repository's test value for the
  isolation level.  The call fails with the error that names the value, but
  \<open>BEGIN TRANSACTION\<close> has reached the engine before the value is rejected, no \<open>rollback\<close>
  follows it, and the \<open>finally\<close> gives the pinned connection back to the pool with the
  transaction still open.  The other failures of the method (a failing callback, a
  rollback-only session, a failing \<open>commit\<close>) are inside the \<open>try\<close> and are rolled back:
  the second equation is the same call with a valid configuration and a failing callback.
\<close>

theorem invalid_config_leaves_transaction_open:
  "DuckDBSession_transaction (\<lambda>h s. None) (OnPool None None) Unknown (\<lambda>i st. (Inr (0::nat), st))
       (Some \<lparr>isolationLevel = Some ''serializable; drop table users;'', accessMode = None,
              deferrable = Undefined\<rparr>)
     = (Inl (InvalidIsolationLevel ''serializable; drop table users;''),
        \<lparr>sent = [''BEGIN TRANSACTION;''], rollbackOnly = False, savepoints = Unknown\<rparr>,
        [Acquired, Released])
   \<and> in_transaction [''BEGIN TRANSACTION;'']
   \<and> DuckDBSession_transaction (\<lambda>h s. None) (OnPool None None) Unknown
       (\<lambda>i st. (Inl (Failure ''callback'') :: error + nat, st))
       (Some \<lparr>isolationLevel = Some ''serializable'', accessMode = None, deferrable = Undefined\<rparr>)
     = (Inl (Failure ''callback''),
        \<lparr>sent = [''BEGIN TRANSACTION;'', ''set transaction isolation level serializable'',
                 ''rollback''],
         rollbackOnly = False, savepoints = Unknown\<rparr>,
        [Acquired, Released])
   \<and> \<not> in_transaction [''BEGIN TRANSACTION;'', ''set transaction isolation level serializable'',
                        ''rollback'']"
  by (simp add: DuckDBSession_transaction_def tx_outer_def tx_begin_def setTransaction_def
      getTransactionConfigSQL_def truthy_def VALID_TRANSACTION_ISOLATION_LEVELS_def execute_def
      tx_try_catch_def tx_try_def isRollbackOnly_def in_transaction_def join.simps Let_def)

text \<open>
  The guards of \<open>getTransactionConfigSQL\<close> are truthiness tests: an empty isolation level
  or access mode is skipped like an absent one, and \<open>set transaction\<close> is sent with
  nothing after it.
\<close>

lemma empty_isolation_level_is_skipped:
  "getTransactionConfigSQL \<lparr>isolationLevel = Some '''', accessMode = None, deferrable = Undefined\<rparr>
     = getTransactionConfigSQL \<lparr>isolationLevel = None, accessMode = None, deferrable = Undefined\<rparr>
   \<and> DuckDBSession_transaction (\<lambda>h s. None) OnConnection Unknown (\<lambda>i st. (Inr (0::nat), st))
       (Some \<lparr>isolationLevel = Some '''', accessMode = None, deferrable = Undefined\<rparr>)
     = (Inr 0,
        \<lparr>sent = [''BEGIN TRANSACTION;'', ''set transaction '', ''commit''],
         rollbackOnly = False, savepoints = Unknown\<rparr>, [])"
  by (simp add: DuckDBSession_transaction_def tx_outer_def tx_begin_def setTransaction_def
      getTransactionConfigSQL_def truthy_def VALID_TRANSACTION_ISOLATION_LEVELS_def execute_def
      tx_try_catch_def tx_try_def isRollbackOnly_def Let_def)

subsection \<open>Outcomes of a top-level transaction\<close>

text \<open>
  With an engine that accepts every \<open>commit\<close> and \<open>rollback\<close>, the three outcomes of
  \<open>DuckDBSession.transaction\<close>.  In the rollback-only case the \<open>TransactionRollbackError\<close>
  is thrown inside the \<open>try\<close> whose \<open>catch\<close> rolls back, so \<open>rollback\<close> is sent twice.
\<close>

lemma transaction_outcomes:
  assumes "client = OnConnection \<or> client = OnPool None None"
    and "tx_begin engine config \<lparr>sent = [], rollbackOnly = False, savepoints = flag\<rparr> = (Inr (), st1)"
    and "transaction 0 st1 = (out, st2)"
    and "\<forall>h. engine h ''commit'' = None" and "\<forall>h. engine h ''rollback'' = None"
    and "DuckDBSession_transaction engine client flag transaction config = (r, st, evs)"
  shows "(case out of
            Inr result \<Rightarrow>
              if rollbackOnly st2
              then r = Inl TransactionRollbackError \<and> sent st = sent st2 @ [''rollback'', ''rollback'']
              else r = Inr result \<and> sent st = sent st2 @ [''commit'']
          | Inl error \<Rightarrow> r = Inl error \<and> sent st = sent st2 @ [''rollback''])"
  using assms
  by (auto simp: DuckDBSession_transaction_def tx_outer_def tx_try_catch_def tx_try_def
      isRollbackOnly_def execute_def Let_def split: sum.splits)

text \<open>
  Claim C4 on an engine that refuses \<open>ROLLBACK\<close> outside a transaction.  The callback
  runs a nested transaction that fails, catches its error and returns; the session is
  rollback-only.  The first \<open>rollback\<close> ends the transaction, the second one, sent by
  the \<open>catch\<close>, is refused, and the engine's error is raised in place of the
  \<open>TransactionRollbackError\<close>.
\<close>

theorem rollback_only_error_masked:
  "DuckDBSession_transaction strict_engine OnConnection Unsupported
       (\<lambda>i st. case DuckDBTransaction_transaction strict_engine
                         (\<lambda>j s. (Inl (Failure ''inner failure'') :: error + nat, s)) i st of
                  (r, st') \<Rightarrow> (Inr (0::nat), st'))
       None
     = (Inl (Failure ''TransactionContext Error: cannot rollback - no transaction is active''),
        \<lparr>sent = [''BEGIN TRANSACTION;'', ''rollback'', ''rollback''], rollbackOnly = True,
         savepoints = Unsupported\<rparr>, [])"
  by (simp add: DuckDBSession_transaction_def tx_outer_def tx_begin_def tx_try_catch_def tx_try_def
      isRollbackOnly_def execute_def Let_def DuckDBTransaction_transaction_def
      areSavepointsUnsupported_def runNestedWithoutSavepoint_def markRollbackOnly_def
      strict_engine_def in_transaction_def)

subsection \<open>The savepoint flag\<close>

lemma parser_error_is_savepoint_syntax_error:
  "isSavepointSyntaxError (Failure ''Parser Error: syntax error at or near SAVEPOINT'')"
  by code_simp

lemma savepoints_execute: "savepoints (snd (execute engine stmt st)) = savepoints st"
  by (simp add: execute_def split: option.splits)

lemma runNested_savepoints:
  assumes "\<forall>j s. P (savepoints s) \<longrightarrow> P (savepoints (snd (transaction j s)))" and "P (savepoints st)"
  shows "P (savepoints (snd (runNestedWithoutSavepoint transaction nestedIndex st)))"
proof -
  obtain r s' where t: "transaction (nestedIndex + 1) st = (r, s')"
    by (cases "transaction (nestedIndex + 1) st") auto
  with assms have "P (savepoints s')" by (metis snd_conv)
  with t show ?thesis
    by (cases r) (simp_all add: runNestedWithoutSavepoint_def markRollbackOnly_def)
qed

lemma nested_try_savepoints:
  assumes "\<forall>j s. P (savepoints s) \<longrightarrow> P (savepoints (snd (transaction j s)))" and "P (savepoints st)"
  shows "P (savepoints (snd (nested_try engine transaction nestedIndex sp st)))"
proof -
  obtain r s' where t: "transaction (nestedIndex + 1) st = (r, s')"
    by (cases "transaction (nestedIndex + 1) st") auto
  with assms have p: "P (savepoints s')" by (metis snd_conv)
  show ?thesis
  proof (cases r)
    case (Inl e)
    with t p show ?thesis
      by (simp add: nested_try_def execute_def markRollbackOnly_def split: option.splits)
  next
    case (Inr v)
    with t p show ?thesis
      by (simp add: nested_try_def execute_def markRollbackOnly_def split: option.splits)
  qed
qed

text \<open>
  Claim C5, as the code has it.  When the flag is \<open>unsupported\<close>, a nested transaction
  sends nothing and runs its callback on the transaction as it is, marking the session
  rollback-only if the callback fails; the flag stays \<open>unsupported\<close> as long as the
  callbacks leave it so.  A nested transaction whose callback does not touch the flag
  changes it only when it is not \<open>unsupported\<close>: to \<open>supported\<close> when its \<open>SAVEPOINT\<close> is
  accepted, to \<open>unsupported\<close> when that fails with a savepoint syntax error, and not at
  all when it fails otherwise.
\<close>

theorem savepoint_flag_permanent:
  shows "(savepoints st = Unsupported \<longrightarrow>
            DuckDBTransaction_transaction engine transaction nestedIndex st =
              (case transaction (nestedIndex + 1) st of
                 (Inl error, st1) \<Rightarrow> (Inl error, st1\<lparr>rollbackOnly := True\<rparr>)
               | (Inr result, st1) \<Rightarrow> (Inr result, st1)))
       \<and> (savepoints st = Unsupported
            \<and> (\<forall>j s. savepoints s = Unsupported \<longrightarrow> savepoints (snd (transaction j s)) = Unsupported)
          \<longrightarrow> savepoints (snd (DuckDBTransaction_transaction engine transaction nestedIndex st))
                = Unsupported)
       \<and> ((\<forall>j s. savepoints (snd (transaction j s)) = savepoints s) \<longrightarrow>
            savepoints (snd (DuckDBTransaction_transaction engine transaction nestedIndex st)) =
              (if savepoints st = Unsupported then Unsupported
               else case engine (sent st) (''savepoint drizzle_savepoint_'' @ show_nat (nestedIndex + 1)) of
                      None \<Rightarrow> Supported
                    | Some e \<Rightarrow> if isSavepointSyntaxError e then Unsupported else savepoints st))"
proof (intro conjI impI)
  assume "savepoints st = Unsupported"
  then show "DuckDBTransaction_transaction engine transaction nestedIndex st =
              (case transaction (nestedIndex + 1) st of
                 (Inl error, st1) \<Rightarrow> (Inl error, st1\<lparr>rollbackOnly := True\<rparr>)
               | (Inr result, st1) \<Rightarrow> (Inr result, st1))"
    by (simp add: DuckDBTransaction_transaction_def areSavepointsUnsupported_def
        runNestedWithoutSavepoint_def markRollbackOnly_def split: prod.splits sum.splits)
next
  assume a: "savepoints st = Unsupported
            \<and> (\<forall>j s. savepoints s = Unsupported \<longrightarrow> savepoints (snd (transaction j s)) = Unsupported)"
  from runNested_savepoints [of "\<lambda>f. f = Unsupported" transaction st nestedIndex] a
  show "savepoints (snd (DuckDBTransaction_transaction engine transaction nestedIndex st))
                = Unsupported"
    by (simp add: DuckDBTransaction_transaction_def areSavepointsUnsupported_def)
next
  assume n: "\<forall>j s. savepoints (snd (transaction j s)) = savepoints s"
  have keep: "\<And>s. savepoints (snd (runNestedWithoutSavepoint transaction nestedIndex s)) = savepoints s"
    "\<And>sp s. savepoints (snd (nested_try engine transaction nestedIndex sp s)) = savepoints s"
    using runNested_savepoints [of "\<lambda>f. f = c" transaction _ nestedIndex for c]
      nested_try_savepoints [of "\<lambda>f. f = c" transaction _ engine nestedIndex for c] n
    by simp_all
  show "savepoints (snd (DuckDBTransaction_transaction engine transaction nestedIndex st)) =
              (if savepoints st = Unsupported then Unsupported
               else case engine (sent st) (''savepoint drizzle_savepoint_'' @ show_nat (nestedIndex + 1)) of
                      None \<Rightarrow> Supported
                    | Some e \<Rightarrow> if isSavepointSyntaxError e then Unsupported else savepoints st)"
  proof (cases "savepoints st = Unsupported")
    case True
    then show ?thesis
      by (simp add: DuckDBTransaction_transaction_def areSavepointsUnsupported_def keep)
  next
    case False
    show ?thesis
    proof (cases "engine (sent st) (''savepoint drizzle_savepoint_'' @ show_nat (nestedIndex + 1))")
      case None
      with False show ?thesis
        by (simp add: DuckDBTransaction_transaction_def areSavepointsUnsupported_def keep
            execute_def markSavepointsSupported_def Let_def)
    next
      case (Some e)
      with False show ?thesis
        by (simp add: DuckDBTransaction_transaction_def areSavepointsUnsupported_def keep
            execute_def markSavepointsUnsupported_def Let_def)
    qed
  qed
qed

theorem savepoint_flag_permanent_witness:
  "DuckDBTransaction_transaction
       (\<lambda>h s. Some (Failure ''Parser Error: syntax error at or near SAVEPOINT''))
       (\<lambda>j s. (Inr (0::nat), s)) 0
       \<lparr>sent = [''BEGIN TRANSACTION;''], rollbackOnly = False, savepoints = Unsupported\<rparr>
     = (Inr 0, \<lparr>sent = [''BEGIN TRANSACTION;''], rollbackOnly = False, savepoints = Unsupported\<rparr>)"
  using savepoint_flag_permanent [of
      "\<lparr>sent = [''BEGIN TRANSACTION;''], rollbackOnly = False, savepoints = Unsupported\<rparr>"
      "\<lambda>h s. Some (Failure ''Parser Error: syntax error at or near SAVEPOINT'')"
      "\<lambda>j s. (Inr (0::nat), s)" 0]
  by simp

text \<open>
  Claim C5 as stated fails: a first attempt whose \<open>SAVEPOINT\<close> fails with another error
  leaves the flag \<open>unknown\<close>; the second attempt sends \<open>SAVEPOINT\<close> again and it is this
  one that sets the flag.
\<close>

theorem savepoint_flag_counterexample:
  "DuckDBTransaction_transaction
       (\<lambda>h s. if h = [] then Some (Failure ''Connection Error: connection reset'') else None)
       (\<lambda>j s. (Inr (0::nat), s)) 0
       \<lparr>sent = [], rollbackOnly = False, savepoints = Unknown\<rparr>
     = (Inl (Failure ''Connection Error: connection reset''),
        \<lparr>sent = [''savepoint drizzle_savepoint_1''], rollbackOnly = False, savepoints = Unknown\<rparr>)
   \<and> DuckDBTransaction_transaction
       (\<lambda>h s. if h = [] then Some (Failure ''Connection Error: connection reset'') else None)
       (\<lambda>j s. (Inr (0::nat), s)) 0
       \<lparr>sent = [''savepoint drizzle_savepoint_1''], rollbackOnly = False, savepoints = Unknown\<rparr>
     = (Inr 0,
        \<lparr>sent = [''savepoint drizzle_savepoint_1'', ''savepoint drizzle_savepoint_1'',
                 ''release savepoint drizzle_savepoint_1''],
         rollbackOnly = False, savepoints = Supported\<rparr>)"
proof -
  have n: "show_nat (Suc 0) = ''1''"
    by code_simp
  have e: "\<not> isSavepointSyntaxError (Failure ''Connection Error: connection reset'')"
    by code_simp
  show ?thesis
    by (simp add: DuckDBTransaction_transaction_def areSavepointsUnsupported_def n e execute_def
        nested_try_def markSavepointsSupported_def Let_def)
qed

section \<open>pool.ts: the connection pool\<close>

subsection \<open>Configuration and state\<close>

text \<open>
  A connection is known by its identity.  \<open>DuckDBConnectionPoolOptions\<close> with its optional
  fields, and the constants \<open>createDuckDBConnectionPool\<close> derives from it (\<open>poolSize\<close> is
  the source's \<open>size\<close>; \<open>hasSetup\<close> says whether there is a \<open>setup\<close> hook).  Times and the
  limit of the queue are integers here.  The \<open>size\<close> of the options is a \<open>number\<close>, which
  the code takes as it is given and compares with \<open>total\<close>, a whole number: for that, a
  number is a whole number (\<open>Whole n\<close>) or lies strictly between two neighbouring
  whole numbers (\<open>Between k\<close>, a number above \<open>k\<close> and below \<open>k + 1\<close>).  \<open>poolSize\<close> is
  the least whole number that is not below the size, so that \<open>total < size\<close> holds
  exactly when \<open>total < poolSize\<close> does; \<open>exceeds t x\<close> says that the whole number \<open>t\<close> is
  greater than the number \<open>x\<close>.
\<close>

type_synonym conn = nat

datatype number = Whole int | Between int

fun exceeds :: "int \<Rightarrow> number \<Rightarrow> bool" where
  "exceeds t (Whole n) = (t > n)"
| "exceeds t (Between k) = (t > k)"

record DuckDBConnectionPoolOptions =
  opt_size :: "number option"
  opt_acquireTimeout :: "int option"
  opt_maxWaitingRequests :: "int option"
  opt_maxLifetimeMs :: "int option"
  opt_idleTimeoutMs :: "int option"
  opt_setup :: bool

record pool_config =
  poolSize :: int
  acquireTimeout :: int
  maxWaitingRequests :: int
  maxLifetimeMs :: "int option"
  idleTimeoutMs :: "int option"
  hasSetup :: bool

definition pool_config_of :: "DuckDBConnectionPoolOptions \<Rightarrow> pool_config" where
  "pool_config_of options =
     \<lparr>poolSize = (case opt_size options of
                    Some (Whole n) \<Rightarrow> if n \<noteq> 0 \<and> n > 0 then n else 4
                  | Some (Between k) \<Rightarrow> if k \<ge> 0 then k + 1 else 4
                  | None \<Rightarrow> 4),
      acquireTimeout = (case opt_acquireTimeout options of Some t \<Rightarrow> t | None \<Rightarrow> 30000),
      maxWaitingRequests = (case opt_maxWaitingRequests options of Some k \<Rightarrow> k | None \<Rightarrow> 100),
      maxLifetimeMs = opt_maxLifetimeMs options,
      idleTimeoutMs = opt_idleTimeoutMs options,
      hasSetup = opt_setup options\<rparr>"

text \<open>
  The variables of the closure.  \<open>idle\<close> is a stack, its head the connection pushed
  last; \<open>waiting\<close> is a queue, its head the oldest waiter; a waiter is known by its
  \<open>timeoutId\<close>, and its \<open>resolve\<close>/\<open>reject\<close> settle the \<open>acquire\<close> that waits.
\<close>

record PooledConnection =
  connection :: conn
  createdAt :: int
  lastUsedAt :: int

record meta =
  m_createdAt :: int
  m_lastUsedAt :: int

record pool =
  idle :: "PooledConnection list"
  waiting :: "nat list"
  total :: int
  closed :: bool
  pendingAcquires :: int
  metadata :: "conn \<rightharpoonup> meta"

definition createDuckDBConnectionPool :: pool where
  "createDuckDBConnectionPool =
     \<lparr>idle = [], waiting = [], total = 0, closed = False, pendingAcquires = 0,
      metadata = Map.empty\<rparr>"

definition shouldRecycle :: "pool_config \<Rightarrow> PooledConnection \<Rightarrow> int \<Rightarrow> bool" where
  "shouldRecycle cfg conn now =
     (if (case maxLifetimeMs cfg of Some L \<Rightarrow> now - createdAt conn \<ge> L | None \<Rightarrow> False) then True
      else if (case idleTimeoutMs cfg of Some I \<Rightarrow> now - lastUsedAt conn \<ge> I | None \<Rightarrow> False) then True
      else False)"

subsection \<open>Suspension points\<close>

text \<open>
  Between two \<open>await\<close>s the code runs without interruption; at an \<open>await\<close> other calls
  may run.  A \<open>task\<close> is a call suspended at an \<open>await\<close> (the line is that of
  \<open>pool.ts\<close>), with the local variables it needs when it goes on.  An \<open>acquire\<close> is called
  by a user or, at line 205, by a \<open>release\<close> that then settles its waiter with the
  result (\<open>dest\<close>).
\<close>

datatype dest = ToCaller | ToWaiter nat

datatype task =
    AcqRecycle PooledConnection dest
  | AcqCreate dest
  | AcqSetup conn dest
  | AcqSetupFailed conn error dest
  | AcqClosedDestroy conn dest
  | AcqQueued nat dest
  | RelWaiterClosed conn nat
  | RelWaiterExpired conn nat
  | RelClosed conn
  | RelExpired conn
  | CloseIdle "PooledConnection list"
  | CloseWait int

text \<open>
  What a call does to the outside in one uninterrupted run, in order: it calls
  \<open>closeClientConnection\<close>, \<open>DuckDBConnection.create\<close> or the setup hook (and awaits
  it), sets a timer (\<open>setTimeout\<close>, with the id it returns and the delay it is given) or
  clears one, or settles a waiter.
\<close>

datatype effect =
    Destroy conn
  | Create
  | Setup conn
  | SetTimer nat int
  | ClearTimer nat
  | Settle nat "error + conn"

text \<open>A call has returned a connection, returned nothing, raised, or is suspended.\<close>

datatype status = Gave conn | Completed | Failed error | Suspended task

text \<open>
  What the outside answers when a run starts or goes on: the clock, the timer id
  \<open>setTimeout\<close> returns, and what the awaited call did.  Each run reads the fields it
  needs.
\<close>

record reply =
  now :: int
  timer :: nat
  destroyed :: "error option"
  created :: "error + conn"
  setup_done :: "error option"
  settled :: "error + conn"

type_synonym run = "pool \<times> status \<times> effect list"

subsection \<open>\<open>acquire\<close>\<close>

text \<open>
  The end of an \<open>acquire\<close>: its caller gets the result, or the \<open>release\<close> that called
  it settles its waiter with it and returns.
\<close>

definition deliver :: "dest \<Rightarrow> error + conn \<Rightarrow> pool \<Rightarrow> run" where
  "deliver d r p =
     (case d of
        ToCaller \<Rightarrow> (p, (case r of Inl e \<Rightarrow> Failed e | Inr c \<Rightarrow> Gave c), [])
      | ToWaiter w \<Rightarrow> (p, Completed, [Settle w r]))"

text \<open>Lines 122 to 174, after the loop over the idle connections.\<close>

definition acquire_after_scan :: "pool_config \<Rightarrow> dest \<Rightarrow> reply \<Rightarrow> pool \<Rightarrow> run" where
  "acquire_after_scan cfg d rp p =
     (if total p < poolSize cfg then
        (p\<lparr>pendingAcquires := pendingAcquires p + 1, total := total p + 1\<rparr>,
         Suspended (AcqCreate d), [Create])
      else if int (length (waiting p)) \<ge> maxWaitingRequests cfg then
        deliver d (Inl (QueueFull (maxWaitingRequests cfg))) p
      else
        (p\<lparr>waiting := waiting p @ [timer rp]\<rparr>,
         Suspended (AcqQueued (timer rp) d), [SetTimer (timer rp) (acquireTimeout cfg)]))"

text \<open>
  One turn of the loop of lines 105 to 120: it leaves with the connection popped, or
  awaits its destruction; the loop goes on when that has returned.
\<close>

definition acquire_scan :: "pool_config \<Rightarrow> dest \<Rightarrow> reply \<Rightarrow> pool \<Rightarrow> run" where
  "acquire_scan cfg d rp p =
     (case idle p of
        [] \<Rightarrow> acquire_after_scan cfg d rp p
      | pooled # rest \<Rightarrow>
          if shouldRecycle cfg pooled (now rp) then
            (p\<lparr>idle := rest\<rparr>, Suspended (AcqRecycle pooled d), [Destroy (connection pooled)])
          else
            deliver d (Inr (connection pooled))
              (p\<lparr>idle := rest,
                 metadata := (metadata p)(connection pooled \<mapsto>
                   \<lparr>m_createdAt = createdAt pooled, m_lastUsedAt = now rp\<rparr>)\<rparr>))"

definition acquire :: "pool_config \<Rightarrow> dest \<Rightarrow> reply \<Rightarrow> pool \<Rightarrow> run" where
  "acquire cfg d rp p =
     (if closed p then deliver d (Inl PoolClosed) p else acquire_scan cfg d rp p)"

text \<open>The \<open>catch\<close> and the \<open>finally\<close> of lines 144 to 149.\<close>

definition create_failed :: "dest \<Rightarrow> error \<Rightarrow> pool \<Rightarrow> run" where
  "create_failed d e p =
     deliver d (Inl e) (p\<lparr>total := total p - 1, pendingAcquires := pendingAcquires p - 1\<rparr>)"

text \<open>Lines 135 to 143, with the connection created and set up.\<close>

definition acquire_created :: "dest \<Rightarrow> reply \<Rightarrow> conn \<Rightarrow> pool \<Rightarrow> run" where
  "acquire_created d rp c p =
     (if closed p then (p, Suspended (AcqClosedDestroy c d), [Destroy c])
      else
        deliver d (Inr c)
          (p\<lparr>metadata := (metadata p)(c \<mapsto> \<lparr>m_createdAt = now rp, m_lastUsedAt = now rp\<rparr>),
             pendingAcquires := pendingAcquires p - 1\<rparr>))"

subsection \<open>\<open>release\<close>, \<open>close\<close> and the timer\<close>

definition expired :: "pool_config \<Rightarrow> meta \<Rightarrow> int \<Rightarrow> bool" where
  "expired cfg m t = (case maxLifetimeMs cfg of Some L \<Rightarrow> t - m_createdAt m \<ge> L | None \<Rightarrow> False)"

definition meta_or_now :: "pool \<Rightarrow> conn \<Rightarrow> int \<Rightarrow> meta" where
  "meta_or_now p c t =
     (case metadata p c of Some m \<Rightarrow> m | None \<Rightarrow> \<lparr>m_createdAt = t, m_lastUsedAt = t\<rparr>)"

definition release :: "pool_config \<Rightarrow> conn \<Rightarrow> reply \<Rightarrow> pool \<Rightarrow> run" where
  "release cfg c rp p =
     (case waiting p of
        waiter # rest \<Rightarrow>
          (let m = meta_or_now p c (now rp) in
           if closed p then
             (p\<lparr>waiting := rest\<rparr>, Suspended (RelWaiterClosed c waiter), [ClearTimer waiter, Destroy c])
           else if expired cfg m (now rp) then
             (p\<lparr>waiting := rest\<rparr>, Suspended (RelWaiterExpired c waiter), [ClearTimer waiter, Destroy c])
           else
             (p\<lparr>waiting := rest, metadata := (metadata p)(c \<mapsto> m\<lparr>m_lastUsedAt := now rp\<rparr>)\<rparr>,
              Completed, [ClearTimer waiter, Settle waiter (Inr c)]))
      | [] \<Rightarrow>
          if closed p then (p, Suspended (RelClosed c), [Destroy c])
          else
            (let existingMeta = (meta_or_now p c (now rp))\<lparr>m_lastUsedAt := now rp\<rparr>;
                 p1 = p\<lparr>metadata := (metadata p)(c \<mapsto> existingMeta)\<rparr>
             in if expired cfg existingMeta (now rp) then
                  (p1, Suspended (RelExpired c), [Destroy c])
                else
                  (p1\<lparr>idle := \<lparr>connection = c, createdAt = m_createdAt existingMeta,
                                lastUsedAt = m_lastUsedAt existingMeta\<rparr> # idle p1\<rparr>,
                   Completed, [])))"

text \<open>The loop of lines 274 to 276, which waits for the creations in flight.\<close>

definition close_wait :: "int \<Rightarrow> reply \<Rightarrow> pool \<Rightarrow> run" where
  "close_wait start rp p =
     (if pendingAcquires p > 0 \<and> now rp - start < 5000 then (p, Suspended (CloseWait start), [])
      else (p, Completed, []))"

text \<open>
  \<open>close\<close>, lines 253 to 266, up to the \<open>await\<close> of \<open>Promise.allSettled\<close>: the waiters
  are rejected, the oldest first, then the idle connections are closed in the order of
  the array, the one pushed first first.
\<close>

definition close :: "pool \<Rightarrow> run" where
  "close p =
     (p\<lparr>closed := True, waiting := [], idle := []\<rparr>,
      Suspended (CloseIdle (rev (idle p))),
      concat (map (\<lambda>w. [ClearTimer w, Settle w (Inl PoolClosed)]) (waiting p))
        @ map (\<lambda>item. Destroy (connection item)) (rev (idle p)))"

text \<open>The timer of a waiter fires: the callback of lines 160 to 171.\<close>

definition timeout :: "pool_config \<Rightarrow> nat \<Rightarrow> pool \<Rightarrow> run" where
  "timeout cfg timeoutId p =
     (p\<lparr>waiting := remove1 timeoutId (waiting p)\<rparr>, Completed,
      [Settle timeoutId (Inl (AcquireTimeout (acquireTimeout cfg)))])"

subsection \<open>Going on after an \<open>await\<close>\<close>

definition forget :: "conn \<Rightarrow> pool \<Rightarrow> pool" where
  "forget c p = p\<lparr>total := max 0 (total p - 1), metadata := (metadata p)(c := None)\<rparr>"

definition resume :: "pool_config \<Rightarrow> task \<Rightarrow> reply \<Rightarrow> pool \<Rightarrow> run" where
  "resume cfg t rp p =
     (case t of
        AcqRecycle pooled d \<Rightarrow>
          (case destroyed rp of
             Some e \<Rightarrow> deliver d (Inl e) p
           | None \<Rightarrow> acquire_scan cfg d rp (forget (connection pooled) p))
      | AcqCreate d \<Rightarrow>
          (case created rp of
             Inl e \<Rightarrow> create_failed d e p
           | Inr c \<Rightarrow>
               if hasSetup cfg then (p, Suspended (AcqSetup c d), [Setup c])
               else acquire_created d rp c p)
      | AcqSetup c d \<Rightarrow>
          (case setup_done rp of
             Some e \<Rightarrow> (p, Suspended (AcqSetupFailed c e d), [Destroy c])
           | None \<Rightarrow> acquire_created d rp c p)
      | AcqSetupFailed c e d \<Rightarrow>
          (case destroyed rp of
             Some e' \<Rightarrow> create_failed d e' p
           | None \<Rightarrow> create_failed d e p)
      | AcqClosedDestroy c d \<Rightarrow>
          (case destroyed rp of
             Some e' \<Rightarrow> create_failed d e' p
           | None \<Rightarrow> create_failed d PoolClosed (p\<lparr>total := total p - 1\<rparr>))
      | AcqQueued timeoutId d \<Rightarrow> deliver d (settled rp) p
      | RelWaiterClosed c waiter \<Rightarrow>
          (case destroyed rp of
             Some e \<Rightarrow> (p, Failed e, [])
           | None \<Rightarrow> (forget c p, Completed, [Settle waiter (Inl PoolClosed)]))
      | RelWaiterExpired c waiter \<Rightarrow>
          (case destroyed rp of
             Some e \<Rightarrow> (p, Failed e, [])
           | None \<Rightarrow> acquire cfg (ToWaiter waiter) rp (forget c p))
      | RelClosed c \<Rightarrow>
          (case destroyed rp of
             Some e \<Rightarrow> (p, Failed e, [])
           | None \<Rightarrow> (forget c p, Completed, []))
      | RelExpired c \<Rightarrow>
          (case destroyed rp of
             Some e \<Rightarrow> (p, Failed e, [])
           | None \<Rightarrow>
               (p\<lparr>total := total p - 1, metadata := (metadata p)(c := None)\<rparr>, Completed, []))
      | CloseIdle toClose \<Rightarrow>
          close_wait (now rp) rp
            (p\<lparr>total := max 0 (total p - int (length toClose)),
               metadata := (\<lambda>c. if c \<in> set (map connection toClose) then None else metadata p c)\<rparr>)
      | CloseWait start \<Rightarrow> close_wait start rp p)"

text \<open>
  Everything that can happen to a pool: a call starts, a suspended call goes on, a timer
  fires.  \<open>reachable\<close> are the states of the pool variables after any sequence of such
  runs from the new pool; it lets any task go on at any time with any answer, which
  covers every interleaving of the calls.
\<close>

datatype action = Acquire | Release conn | Close | Resume task | Timeout nat

definition step :: "pool_config \<Rightarrow> action \<Rightarrow> reply \<Rightarrow> pool \<Rightarrow> run" where
  "step cfg a rp p =
     (case a of
        Acquire \<Rightarrow> acquire cfg ToCaller rp p
      | Release c \<Rightarrow> release cfg c rp p
      | Close \<Rightarrow> close p
      | Resume t \<Rightarrow> resume cfg t rp p
      | Timeout w \<Rightarrow> timeout cfg w p)"

inductive_set reachable :: "pool_config \<Rightarrow> pool set" for cfg :: pool_config where
  init: "createDuckDBConnectionPool \<in> reachable cfg"
| step: "p \<in> reachable cfg \<Longrightarrow> fst (step cfg a rp p) \<in> reachable cfg"


subsection \<open>Notions for the properties of the pool\<close>

text \<open>
  The bounds on the counters: at most \<open>poolSize\<close> connections counted, at most \<open>maxWaitingRequests\<close> waiters.
\<close>

definition bounded :: "pool_config \<Rightarrow> pool \<Rightarrow> bool" where
  "bounded cfg p = (total p \<le> poolSize cfg
      \<and> int (length (waiting p)) \<le> max 0 (maxWaitingRequests cfg))"

text \<open>
  A pool of size one whose connection 7, created at time 0, is checked out; and an answer of the outside, at time 10.
\<close>

definition at_capacity_1 :: pool where
  "at_capacity_1 = \<lparr>idle = [], waiting = [], total = 1, closed = False, pendingAcquires = 0,
      metadata = [7 \<mapsto> \<lparr>m_createdAt = 0, m_lastUsedAt = 0\<rparr>]\<rparr>"

definition rp0 :: reply where
  "rp0 = \<lparr>now = 10, timer = 1, destroyed = None, created = Inr 8, setup_done = None,
          settled = Inr 7\<rparr>"

text \<open>
  A call goes on from \<open>await\<close> to \<open>await\<close> with no other call in between: each answer of the list serves one \<open>await\<close>.
\<close>

fun continue :: "pool_config \<Rightarrow> reply list \<Rightarrow> run \<Rightarrow> run" where
  "continue cfg [] r = r"
| "continue cfg (rp # rps) (p, st, effs) =
     (case st of
        Suspended t \<Rightarrow>
          (let (p', st', effs') = resume cfg t rp p in continue cfg rps (p', st', effs @ effs'))
      | _ \<Rightarrow> (p, st, effs))"

text \<open>
  The tasks a \<open>release\<close> can be suspended in, and the states of a \<open>release\<close> that has not raised.
\<close>

definition of_release :: "task \<Rightarrow> bool" where
  "of_release t =
     (case t of
        AcqRecycle pooled d \<Rightarrow> d \<noteq> ToCaller
      | AcqCreate d \<Rightarrow> d \<noteq> ToCaller
      | AcqSetup c d \<Rightarrow> d \<noteq> ToCaller
      | AcqSetupFailed c e d \<Rightarrow> d \<noteq> ToCaller
      | AcqClosedDestroy c d \<Rightarrow> d \<noteq> ToCaller
      | AcqQueued w d \<Rightarrow> d \<noteq> ToCaller
      | RelWaiterClosed c w \<Rightarrow> True
      | RelWaiterExpired c w \<Rightarrow> True
      | RelClosed c \<Rightarrow> True
      | RelExpired c \<Rightarrow> True
      | CloseIdle toClose \<Rightarrow> False
      | CloseWait start \<Rightarrow> False)"

definition harmless :: "status \<Rightarrow> bool" where
  "harmless st = (case st of Completed \<Rightarrow> True | Suspended t \<Rightarrow> of_release t | _ \<Rightarrow> False)"

text \<open>
  \<open>checkout\<close>: an \<open>acquire\<close> run to its end, the outside creating connection \<open>c\<close>; \<open>checkouts\<close>: one after the other, none released.
\<close>

definition answer :: "conn \<Rightarrow> reply" where
  "answer c = \<lparr>now = 0, timer = 0, destroyed = None, created = Inr c, setup_done = None,
               settled = Inr c\<rparr>"

definition checkout :: "pool_config \<Rightarrow> conn \<Rightarrow> pool \<Rightarrow> run" where
  "checkout cfg c p = continue cfg [answer c, answer c] (acquire cfg ToCaller (answer c) p)"

fun checkouts :: "pool_config \<Rightarrow> conn list \<Rightarrow> pool \<Rightarrow> pool" where
  "checkouts cfg [] p = p"
| "checkouts cfg (c # cs) p = checkouts cfg cs (fst (checkout cfg c p))"

text \<open>
  The connections a run hands out, to its caller or to a waiter.
\<close>

definition settled_conns :: "effect list \<Rightarrow> conn list" where
  "settled_conns effs =
     concat (map (\<lambda>e. case e of Settle w r \<Rightarrow> (case r of Inr c \<Rightarrow> [c] | Inl x \<Rightarrow> []) | _ \<Rightarrow> []) effs)"

definition handed :: "run \<Rightarrow> conn list" where
  "handed r = (case fst (snd r) of Gave c \<Rightarrow> [c] | _ \<Rightarrow> []) @ settled_conns (snd (snd r))"

subsection \<open>The pool with its callers\<close>

text \<open>
  The pool together with what is around it: the calls suspended at an \<open>await\<close>, the
  timers that are set, each with the time from which it can fire, and the promises of
  waiters that are settled and whose \<open>acquire\<close> has not gone on yet, each with the time
  at which the connection was chosen.  \<open>next_timer\<close> is the id the next \<open>setTimeout\<close>
  returns.  Two fields are not variables of the code but its history: \<open>made\<close>, the
  connections \<open>DuckDBConnection.create\<close> has returned, and \<open>born\<close>, for each connection the
  time at which the pool first handed it out, which for a connection created by the pool
  is the time of its \<open>createdAt\<close>.
\<close>

record sys =
  pl :: pool
  suspended :: "task list"
  timers :: "nat \<rightharpoonup> int"
  settlements :: "nat \<rightharpoonup> (error + conn) \<times> int"
  next_timer :: nat
  made :: "conn set"
  born :: "conn \<rightharpoonup> int"

definition new_sys :: sys where
  "new_sys = \<lparr>pl = createDuckDBConnectionPool, suspended = [], timers = Map.empty,
      settlements = Map.empty, next_timer = 0, made = {}, born = Map.empty\<rparr>"

text \<open>
  What a run leaves behind, at time \<open>t\<close>: a timer set with a delay can fire from
  \<open>t + delay\<close> on, a timer cleared cannot fire, a waiter settled has its result, with
  the time \<open>ch\<close> at which the connection was chosen; a call that is suspended joins the
  suspended calls; a connection handed out for the first time is born.
\<close>

fun note_effect :: "int \<Rightarrow> int \<Rightarrow> sys \<Rightarrow> effect \<Rightarrow> sys" where
  "note_effect t ch s (SetTimer w delay) = s\<lparr>timers := (timers s)(w \<mapsto> t + delay)\<rparr>"
| "note_effect t ch s (ClearTimer w) = s\<lparr>timers := (timers s)(w := None)\<rparr>"
| "note_effect t ch s (Settle w r) = s\<lparr>settlements := (settlements s)(w \<mapsto> (r, ch))\<rparr>"
| "note_effect t ch s (Destroy c) = s"
| "note_effect t ch s Create = s"
| "note_effect t ch s (Setup c) = s"

definition absorb :: "int \<Rightarrow> int \<Rightarrow> run \<Rightarrow> sys \<Rightarrow> sys" where
  "absorb t ch r s =
     (let s1 = foldl (note_effect t ch) s (snd (snd r)) in
      s1\<lparr>pl := fst r,
         suspended := suspended s1 @ (case fst (snd r) of Suspended tk \<Rightarrow> [tk] | _ \<Rightarrow> []),
         born := (\<lambda>c. if c \<in> set (handed r) \<and> born s1 c = None then Some ch else born s1 c)\<rparr>)"

text \<open>
  A run of the pool among its callers.  A suspended call goes on only if it is
  suspended; an \<open>acquire\<close> that waits goes on only when its waiter is settled, and with
  that result; a timer fires only if it is set and its time has come; \<open>create\<close> returns
  a connection it has not returned before.  The run gets the id of its timer from
  \<open>next_timer\<close>.  \<open>chosen\<close> is the time at which the connection a run hands out was
  chosen: the time of the run, or, for a waiting \<open>acquire\<close> that goes on, the time at
  which its waiter was settled.
\<close>

definition settlement_for :: "action \<Rightarrow> sys \<Rightarrow> ((error + conn) \<times> int) option" where
  "settlement_for a s =
     (case a of
        Resume tk \<Rightarrow> (case tk of AcqQueued w d \<Rightarrow> settlements s w | _ \<Rightarrow> None)
      | _ \<Rightarrow> None)"

definition the_reply :: "action \<Rightarrow> reply \<Rightarrow> sys \<Rightarrow> reply" where
  "the_reply a rp s =
     rp\<lparr>timer := next_timer s,
        settled := (case settlement_for a s of Some (r, ch) \<Rightarrow> r | None \<Rightarrow> settled rp)\<rparr>"

definition chosen :: "action \<Rightarrow> reply \<Rightarrow> sys \<Rightarrow> int" where
  "chosen a rp s = (case settlement_for a s of Some (r, ch) \<Rightarrow> ch | None \<Rightarrow> now rp)"

definition enabled :: "action \<Rightarrow> reply \<Rightarrow> sys \<Rightarrow> bool" where
  "enabled a rp s =
     (case a of
        Timeout w \<Rightarrow> (case timers s w of Some due \<Rightarrow> due \<le> now rp | None \<Rightarrow> False)
      | Resume tk \<Rightarrow>
          tk \<in> set (suspended s)
          \<and> (case tk of
               AcqQueued w d \<Rightarrow> settlements s w \<noteq> None
             | AcqCreate d \<Rightarrow> (case created rp of Inr c \<Rightarrow> c \<notin> made s | Inl e \<Rightarrow> True)
             | _ \<Rightarrow> True)
      | _ \<Rightarrow> True)"

definition before :: "action \<Rightarrow> reply \<Rightarrow> sys \<Rightarrow> sys" where
  "before a rp s =
     (case a of
        Timeout w \<Rightarrow> s\<lparr>next_timer := Suc (next_timer s), timers := (timers s)(w := None)\<rparr>
      | Resume tk \<Rightarrow>
          (case tk of
             AcqQueued w d \<Rightarrow>
               s\<lparr>next_timer := Suc (next_timer s), suspended := remove1 tk (suspended s),
                 settlements := (settlements s)(w := None)\<rparr>
           | AcqCreate d \<Rightarrow>
               s\<lparr>next_timer := Suc (next_timer s), suspended := remove1 tk (suspended s),
                 made := (case created rp of Inr c \<Rightarrow> insert c (made s) | Inl e \<Rightarrow> made s)\<rparr>
           | _ \<Rightarrow> s\<lparr>next_timer := Suc (next_timer s), suspended := remove1 tk (suspended s)\<rparr>)
      | _ \<Rightarrow> s\<lparr>next_timer := Suc (next_timer s)\<rparr>)"

definition sys_step :: "pool_config \<Rightarrow> action \<Rightarrow> reply \<Rightarrow> sys \<Rightarrow> sys" where
  "sys_step cfg a rp s =
     absorb (now rp) (chosen a rp s) (step cfg a (the_reply a rp s) (pl s)) (before a rp s)"

fun sys_steps :: "pool_config \<Rightarrow> (action \<times> reply) list \<Rightarrow> sys \<Rightarrow> sys" where
  "sys_steps cfg [] s = s"
| "sys_steps cfg ((a, rp) # rest) s = sys_steps cfg rest (sys_step cfg a rp s)"

text \<open>
  The states the pool and its callers get into from the new pool, by runs that are
  enabled; in \<open>orderly_reachable\<close> the callers moreover release only connections the
  pool has a record of (\<open>recorded\<close>): connections they acquired from this pool and
  that it has not destroyed.
\<close>

definition recorded :: "action \<Rightarrow> sys \<Rightarrow> bool" where
  "recorded a s = (case a of Release c \<Rightarrow> metadata (pl s) c \<noteq> None | _ \<Rightarrow> True)"

inductive_set sys_reachable :: "pool_config \<Rightarrow> sys set" for cfg :: pool_config where
  sys_init: "new_sys \<in> sys_reachable cfg"
| sys_next: "s \<in> sys_reachable cfg \<Longrightarrow> enabled a rp s \<Longrightarrow> sys_step cfg a rp s \<in> sys_reachable cfg"

inductive_set orderly_reachable :: "pool_config \<Rightarrow> sys set" for cfg :: pool_config where
  orderly_init: "new_sys \<in> orderly_reachable cfg"
| orderly_next: "s \<in> orderly_reachable cfg \<Longrightarrow> enabled a rp s \<Longrightarrow> recorded a s \<Longrightarrow>
     sys_step cfg a rp s \<in> orderly_reachable cfg"

text \<open>
  The waiters a suspended call will settle.  An \<open>acquire\<close> is \<open>queued\<close> as waiter \<open>w\<close>
  when \<open>w\<close> is in the queue, the \<open>acquire\<close> is suspended on its promise, its timer is set
  and can fire from \<open>due\<close> on, the promise is not settled, and no suspended call is
  about to settle it.  A run \<open>leaves\<close> the waiter alone unless it is the firing of its
  timer, \<open>close\<close>, or a \<open>release\<close> that finds it at the head of the queue; \<open>passes\<close>:
  every run of a sequence is enabled and leaves the waiter alone.
\<close>

fun dest_waiter :: "dest \<Rightarrow> nat list" where
  "dest_waiter ToCaller = []"
| "dest_waiter (ToWaiter w) = [w]"

fun targets :: "task \<Rightarrow> nat list" where
  "targets (AcqRecycle pooled d) = dest_waiter d"
| "targets (AcqCreate d) = dest_waiter d"
| "targets (AcqSetup c d) = dest_waiter d"
| "targets (AcqSetupFailed c e d) = dest_waiter d"
| "targets (AcqClosedDestroy c d) = dest_waiter d"
| "targets (AcqQueued w d) = dest_waiter d"
| "targets (RelWaiterClosed c w) = [w]"
| "targets (RelWaiterExpired c w) = [w]"
| "targets (RelClosed c) = []"
| "targets (RelExpired c) = []"
| "targets (CloseIdle toClose) = []"
| "targets (CloseWait start) = []"

definition queued :: "nat \<Rightarrow> dest \<Rightarrow> int \<Rightarrow> sys \<Rightarrow> bool" where
  "queued w d due s =
     (w \<in> set (waiting (pl s)) \<and> AcqQueued w d \<in> set (suspended s)
      \<and> timers s w = Some due \<and> settlements s w = None \<and> w < next_timer s
      \<and> (\<forall>tk \<in> set (suspended s). w \<notin> set (targets tk)))"

definition leaves :: "nat \<Rightarrow> action \<Rightarrow> sys \<Rightarrow> bool" where
  "leaves w a s =
     (case a of
        Timeout w' \<Rightarrow> w' \<noteq> w
      | Close \<Rightarrow> False
      | Release c \<Rightarrow> hd (waiting (pl s)) \<noteq> w
      | _ \<Rightarrow> True)"

fun passes :: "pool_config \<Rightarrow> nat \<Rightarrow> (action \<times> reply) list \<Rightarrow> sys \<Rightarrow> bool" where
  "passes cfg w [] s = True"
| "passes cfg w ((a, rp) # rest) s =
     (enabled a rp s \<and> leaves w a s \<and> passes cfg w rest (sys_step cfg a rp s))"

text \<open>
  The ids of waiters in use are below the next one; the ids a run names.
\<close>

definition ids_below :: "sys \<Rightarrow> bool" where
  "ids_below s =
     ((\<forall>w \<in> set (waiting (pl s)). w < next_timer s)
      \<and> (\<forall>w \<in> dom (timers s). w < next_timer s)
      \<and> (\<forall>w \<in> dom (settlements s). w < next_timer s)
      \<and> (\<forall>tk \<in> set (suspended s). \<forall>w \<in> set (targets tk). w < next_timer s))"

definition names :: "run \<Rightarrow> nat set" where
  "names r =
     {w. (\<exists>x. Settle w x \<in> set (snd (snd r))) \<or> (\<exists>delay. SetTimer w delay \<in> set (snd (snd r)))}
     \<union> set (waiting (fst r))
     \<union> (case fst (snd r) of Suspended tk \<Rightarrow> set (targets tk) | _ \<Rightarrow> {})"

text \<open>
  The records of the pool tell the truth (\<open>stamps\<close>): the \<open>createdAt\<close> of every record,
  in \<open>metadata\<close> or on the idle stack, is the time the connection was born.  \<open>orderly\<close>
  adds what holds of the callers: a connection a waiter is settled with was not older
  than \<open>L\<close> when it was chosen, and the connections whose setup hook is running
  (\<open>setting_up\<close>) are different ones, made and not born.  \<open>reborn\<close> is \<open>born\<close> after a
  run.
\<close>

definition stamps :: "(conn \<rightharpoonup> int) \<Rightarrow> pool \<Rightarrow> bool" where
  "stamps B p =
     ((\<forall>c m. metadata p c = Some m \<longrightarrow> B c = Some (m_createdAt m))
      \<and> (\<forall>pc \<in> set (idle p). B (connection pc) = Some (createdAt pc)))"

definition setting_up :: "task list \<Rightarrow> conn list" where
  "setting_up tks = concat (map (\<lambda>tk. case tk of AcqSetup c d \<Rightarrow> [c] | _ \<Rightarrow> []) tks)"

definition orderly :: "int \<Rightarrow> sys \<Rightarrow> bool" where
  "orderly L s =
     (stamps (born s) (pl s)
      \<and> (\<forall>w c ch. settlements s w = Some (Inr c, ch) \<longrightarrow> (\<exists>b. born s c = Some b \<and> ch - b \<le> L))
      \<and> dom (born s) \<subseteq> made s
      \<and> distinct (setting_up (suspended s))
      \<and> (\<forall>c \<in> set (setting_up (suspended s)). c \<in> made s \<and> born s c = None))"

definition reborn :: "(conn \<rightharpoonup> int) \<Rightarrow> int \<Rightarrow> run \<Rightarrow> (conn \<rightharpoonup> int)" where
  "reborn B ch r = (\<lambda>c. if c \<in> set (handed r) \<and> B c = None then Some ch else B c)"

text \<open>
  Pools of size one, without a setup hook, with \<open>maxWaitingRequests = K\<close> and
  \<open>maxLifetimeMs = L\<close>, among their callers.  \<open>busy_1\<close>: connection 7, created at time
  0, is checked out.  \<open>waiting_1\<close>: a second \<open>acquire\<close>, at time 10, waits as waiter 2.
  \<open>recycling_1\<close>: connection 7 is then released at time 2000, its destruction has
  returned at 2001, and the \<open>acquire\<close> made for the waiter is creating a connection.
  \<open>reused_1\<close>: with nobody waiting, connection 7 is released at 2000, destroyed, and
  released a second time at 2500.
\<close>

definition one_conn :: "int option \<Rightarrow> int option \<Rightarrow> pool_config" where
  "one_conn K L = pool_config_of \<lparr>opt_size = Some (Whole 1), opt_acquireTimeout = None,
        opt_maxWaitingRequests = K, opt_maxLifetimeMs = L, opt_idleTimeoutMs = None,
        opt_setup = False\<rparr>"

definition busy_1 :: "pool_config \<Rightarrow> sys" where
  "busy_1 cfg =
     sys_steps cfg [(Acquire, rp0\<lparr>now := 0\<rparr>),
                    (Resume (AcqCreate ToCaller), rp0\<lparr>now := 0, created := Inr 7\<rparr>)] new_sys"

definition waiting_1 :: "pool_config \<Rightarrow> sys" where
  "waiting_1 cfg = sys_step cfg Acquire rp0 (busy_1 cfg)"

definition recycling_1 :: "pool_config \<Rightarrow> sys" where
  "recycling_1 cfg =
     sys_steps cfg [(Release 7, rp0\<lparr>now := 2000\<rparr>),
                    (Resume (RelWaiterExpired 7 2), rp0\<lparr>now := 2001\<rparr>)] (waiting_1 cfg)"

definition reused_1 :: "pool_config \<Rightarrow> sys" where
  "reused_1 cfg =
     sys_steps cfg [(Release 7, rp0\<lparr>now := 2000\<rparr>),
                    (Resume (RelExpired 7), rp0\<lparr>now := 2001\<rparr>),
                    (Release 7, rp0\<lparr>now := 2500\<rparr>)] (busy_1 cfg)"

subsection \<open>Properties of the pool\<close>

text \<open>
  The counters stay within their bounds in every reachable state.
\<close>

lemma fst_deliver [simp]: "fst (deliver d r p) = p"
  by (simp add: deliver_def split: dest.splits)

lemma poolSize_pos: "0 < poolSize (pool_config_of options)"
  by (simp add: pool_config_of_def split: option.splits number.splits)

lemma bounded_after_scan:
  "bounded cfg p \<Longrightarrow> bounded cfg (fst (acquire_after_scan cfg d rp p))"
  by (auto simp: bounded_def acquire_after_scan_def)

lemma bounded_forget: "0 \<le> poolSize cfg \<Longrightarrow> bounded cfg p \<Longrightarrow> bounded cfg (forget c p)"
  by (auto simp: bounded_def forget_def)

lemma bounded_scan:
  "bounded cfg p \<Longrightarrow> bounded cfg (fst (acquire_scan cfg d rp p))"
proof (cases "idle p")
  case Nil
  then show "bounded cfg p \<Longrightarrow> ?thesis" by (simp add: acquire_scan_def bounded_after_scan)
next
  case (Cons pooled rest)
  then show "bounded cfg p \<Longrightarrow> ?thesis" by (auto simp: acquire_scan_def bounded_def)
qed

lemma bounded_acquire:
  "bounded cfg p \<Longrightarrow> bounded cfg (fst (acquire cfg d rp p))"
  by (simp add: acquire_def bounded_scan)

lemma bounded_create_failed:
  "bounded cfg p \<Longrightarrow> bounded cfg (fst (create_failed d e p))"
  by (auto simp: create_failed_def bounded_def)

lemma bounded_created:
  "bounded cfg p \<Longrightarrow> bounded cfg (fst (acquire_created d rp c p))"
  by (auto simp: acquire_created_def bounded_def)

lemma bounded_release:
  "bounded cfg p \<Longrightarrow> bounded cfg (fst (release cfg c rp p))"
  by (auto simp: release_def bounded_def Let_def split: list.splits)

lemma bounded_close_wait:
  "bounded cfg p \<Longrightarrow> bounded cfg (fst (close_wait start rp p))"
  by (simp add: close_wait_def)

lemma bounded_close: "bounded cfg p \<Longrightarrow> bounded cfg (fst (close p))"
  by (auto simp: close_def bounded_def)

lemma length_remove1_le: "length (remove1 x xs) \<le> length xs"
  by (induction xs) auto

lemma bounded_timeout: "bounded cfg p \<Longrightarrow> bounded cfg (fst (timeout cfg w p))"
  using length_remove1_le [of w "waiting p"] by (auto simp: timeout_def bounded_def)

lemma bounded_minus: "bounded cfg p \<Longrightarrow> bounded cfg (p\<lparr>total := total p - 1\<rparr>)"
  by (auto simp: bounded_def)

lemma bounded_resume:
  assumes "0 \<le> poolSize cfg" and "bounded cfg p"
  shows "bounded cfg (fst (resume cfg t rp p))"
proof (cases t)
  case (AcqRecycle pooled d)
  with assms show ?thesis
    by (simp add: resume_def bounded_scan bounded_forget split: option.splits)
next
  case (AcqCreate d)
  with assms show ?thesis
    by (simp add: resume_def bounded_create_failed bounded_created split: sum.splits)
next
  case (AcqSetup c d)
  with assms show ?thesis
    by (simp add: resume_def bounded_created split: option.splits)
next
  case (AcqSetupFailed c e d)
  with assms show ?thesis
    by (simp add: resume_def bounded_create_failed split: option.splits)
next
  case (AcqClosedDestroy c d)
  with assms show ?thesis
    by (simp add: resume_def bounded_create_failed bounded_minus split: option.splits)
next
  case (AcqQueued w d)
  with assms show ?thesis by (simp add: resume_def)
next
  case (RelWaiterClosed c w)
  with assms show ?thesis by (simp add: resume_def bounded_forget split: option.splits)
next
  case (RelWaiterExpired c w)
  with assms show ?thesis
    by (simp add: resume_def bounded_forget bounded_acquire split: option.splits)
next
  case (RelClosed c)
  with assms show ?thesis by (simp add: resume_def bounded_forget split: option.splits)
next
  case (RelExpired c)
  with assms show ?thesis by (auto simp: resume_def bounded_def split: option.splits)
next
  case (CloseIdle toClose)
  with assms show ?thesis by (auto simp: resume_def close_wait_def bounded_def)
next
  case (CloseWait start)
  with assms show ?thesis by (simp add: resume_def bounded_close_wait)
qed

lemma bounded_step:
  "0 \<le> poolSize cfg \<Longrightarrow> bounded cfg p \<Longrightarrow> bounded cfg (fst (step cfg a rp p))"
  by (cases a)
    (simp_all add: step_def bounded_acquire bounded_release bounded_close bounded_resume
      bounded_timeout)

lemma reachable_bounded:
  assumes "0 \<le> poolSize cfg" and "p \<in> reachable cfg"
  shows "bounded cfg p"
  using assms(2)
proof (induction rule: reachable.induct)
  case init
  from assms(1) show ?case by (simp add: bounded_def createDuckDBConnectionPool_def)
next
  case (step p a rp)
  with assms(1) show ?case by (simp add: bounded_step)
qed

text \<open>
  Destroying an expired idle connection frees a slot: an \<open>acquire\<close> that has done so and
  finds nothing more idle creates a connection.  It is at capacity with no usable idle
  connection only when it finds nothing idle at all.
\<close>

lemma forget_frees_a_slot:
  "0 < poolSize cfg \<Longrightarrow> bounded cfg p \<Longrightarrow> total (forget c p) < poolSize cfg"
  by (auto simp: bounded_def forget_def)

lemma recycle_then_create:
  assumes "0 < poolSize cfg" and "bounded cfg p" and "idle p = []" and "destroyed rp = None"
  shows "resume cfg (AcqRecycle pooled d) rp p =
     ((forget (connection pooled) p)\<lparr>pendingAcquires := pendingAcquires p + 1,
        total := total (forget (connection pooled) p) + 1\<rparr>, Suspended (AcqCreate d), [Create])"
  using forget_frees_a_slot [OF assms(1,2), of "connection pooled"] assms(3,4)
  by (simp add: resume_def acquire_scan_def acquire_after_scan_def forget_def)

text \<open>
  Claim C8.  An \<open>acquire\<close> on an open pool with nothing idle and \<open>total\<close> at the pool
  size raises the queue-full error, leaving the pool as it is, when \<open>K\<close> or more
  waiters are queued, and otherwise queues itself behind them with a timer of
  \<open>acquireTimeout\<close> ms; in no
  reachable state are there more than \<open>K\<close> waiters (none when \<open>K\<close> is negative).
\<close>

theorem queue_full_admission:
  assumes "cfg = pool_config_of options" and "K = maxWaitingRequests cfg"
    and "\<not> closed p" and "idle p = []" and "poolSize cfg \<le> total p"
  shows "acquire cfg ToCaller rp p =
           (if K \<le> int (length (waiting p)) then (p, Failed (QueueFull K), [])
            else (p\<lparr>waiting := waiting p @ [timer rp]\<rparr>,
                  Suspended (AcqQueued (timer rp) ToCaller), [SetTimer (timer rp) (acquireTimeout cfg)]))
       \<and> (\<forall>q \<in> reachable cfg. int (length (waiting q)) \<le> max 0 K)"
proof
  from assms(2-5) show "acquire cfg ToCaller rp p =
           (if K \<le> int (length (waiting p)) then (p, Failed (QueueFull K), [])
            else (p\<lparr>waiting := waiting p @ [timer rp]\<rparr>,
                  Suspended (AcqQueued (timer rp) ToCaller), [SetTimer (timer rp) (acquireTimeout cfg)]))"
    by (simp add: acquire_def acquire_scan_def acquire_after_scan_def deliver_def)
  from poolSize_pos [of options] assms(1) have "0 \<le> poolSize cfg" by simp
  from reachable_bounded [OF this] assms(2)
  show "\<forall>q \<in> reachable cfg. int (length (waiting q)) \<le> max 0 K"
    by (simp add: bounded_def)
qed

text \<open>
  A pool of size one with \<open>maxWaitingRequests = 1\<close>: the second \<open>acquire\<close> waits, the
  third is refused.
\<close>

theorem queue_full_admission_witness:
  "acquire (pool_config_of \<lparr>opt_size = Some (Whole 1), opt_acquireTimeout = None,
        opt_maxWaitingRequests = Some 1, opt_maxLifetimeMs = None, opt_idleTimeoutMs = None,
        opt_setup = False\<rparr>) ToCaller rp0 at_capacity_1
     = (at_capacity_1\<lparr>waiting := [1]\<rparr>, Suspended (AcqQueued 1 ToCaller), [SetTimer 1 30000])
   \<and> acquire (pool_config_of \<lparr>opt_size = Some (Whole 1), opt_acquireTimeout = None,
        opt_maxWaitingRequests = Some 1, opt_maxLifetimeMs = None, opt_idleTimeoutMs = None,
        opt_setup = False\<rparr>) ToCaller rp0 (at_capacity_1\<lparr>waiting := [1]\<rparr>)
     = (at_capacity_1\<lparr>waiting := [1]\<rparr>, Failed (QueueFull 1), [])"
proof -
  define cfg where "cfg = pool_config_of \<lparr>opt_size = Some (Whole 1), opt_acquireTimeout = None,
        opt_maxWaitingRequests = Some 1, opt_maxLifetimeMs = None, opt_idleTimeoutMs = None,
        opt_setup = False\<rparr>"
  have k: "(1::int) = maxWaitingRequests cfg" and s: "poolSize cfg = 1"
    by (simp_all add: cfg_def pool_config_of_def)
  have a: "\<not> closed at_capacity_1" "idle at_capacity_1 = []" "poolSize cfg \<le> total at_capacity_1"
    by (simp_all add: at_capacity_1_def s)
  have b: "\<not> closed (at_capacity_1\<lparr>waiting := [1]\<rparr>)" "idle (at_capacity_1\<lparr>waiting := [1]\<rparr>) = []"
    "poolSize cfg \<le> total (at_capacity_1\<lparr>waiting := [1]\<rparr>)"
    by (simp_all add: at_capacity_1_def s)
  have t: "acquireTimeout cfg = 30000"
    by (simp add: cfg_def pool_config_of_def)
  from queue_full_admission [OF cfg_def k a, of rp0] queue_full_admission [OF cfg_def k b, of rp0]
  show ?thesis
    by (simp add: cfg_def [symmetric] at_capacity_1_def rp0_def t)
qed

text \<open>
  Claim C10, as the code has it.  On an open pool whose \<open>maxLifetimeMs\<close> is unset or
  positive, \<open>release\<close> of a connection the pool has no record of makes a record with both
  times the current time, does not judge it expired, and hands the connection to the
  oldest waiter or pushes it on the idle stack; \<open>total\<close> is unchanged.
\<close>

theorem foreign_release:
  assumes "metadata p c = None" and "\<not> closed p"
    and "case maxLifetimeMs cfg of Some L \<Rightarrow> 0 < L | None \<Rightarrow> True"
  shows "release cfg c rp p =
           (case waiting p of
              waiter # rest \<Rightarrow>
                (p\<lparr>waiting := rest,
                   metadata := (metadata p)(c \<mapsto> \<lparr>m_createdAt = now rp, m_lastUsedAt = now rp\<rparr>)\<rparr>,
                 Completed, [ClearTimer waiter, Settle waiter (Inr c)])
            | [] \<Rightarrow>
                (p\<lparr>metadata := (metadata p)(c \<mapsto> \<lparr>m_createdAt = now rp, m_lastUsedAt = now rp\<rparr>),
                   idle := \<lparr>connection = c, createdAt = now rp, lastUsedAt = now rp\<rparr> # idle p\<rparr>,
                 Completed, []))
       \<and> total (fst (release cfg c rp p)) = total p
       \<and> \<not> expired cfg (meta_or_now p c (now rp)) (now rp)"
  using assms
  by (auto simp: release_def meta_or_now_def expired_def Let_def split: list.splits option.splits)

theorem foreign_release_witness:
  "release (pool_config_of \<lparr>opt_size = Some (Whole 1), opt_acquireTimeout = None,
        opt_maxWaitingRequests = Some 1, opt_maxLifetimeMs = Some 1000, opt_idleTimeoutMs = None,
        opt_setup = False\<rparr>) 9 rp0 at_capacity_1
     = (at_capacity_1\<lparr>metadata := (metadata at_capacity_1)(9 \<mapsto> \<lparr>m_createdAt = 10, m_lastUsedAt = 10\<rparr>),
          idle := [\<lparr>connection = 9, createdAt = 10, lastUsedAt = 10\<rparr>]\<rparr>, Completed, [])
   \<and> total (at_capacity_1\<lparr>metadata := (metadata at_capacity_1)(9 \<mapsto> \<lparr>m_createdAt = 10, m_lastUsedAt = 10\<rparr>),
          idle := [\<lparr>connection = 9, createdAt = 10, lastUsedAt = 10\<rparr>]\<rparr>) = 1"
proof -
  define cfg where "cfg = pool_config_of \<lparr>opt_size = Some (Whole 1), opt_acquireTimeout = None,
        opt_maxWaitingRequests = Some 1, opt_maxLifetimeMs = Some 1000, opt_idleTimeoutMs = None,
        opt_setup = False\<rparr>"
  have a: "metadata at_capacity_1 9 = None" "\<not> closed at_capacity_1"
    "case maxLifetimeMs cfg of Some L \<Rightarrow> 0 < L | None \<Rightarrow> True"
    by (simp_all add: at_capacity_1_def cfg_def pool_config_of_def)
  from foreign_release [OF a, of rp0] show ?thesis
    by (simp add: cfg_def [symmetric] at_capacity_1_def rp0_def)
qed

text \<open>
  Claim C10 as stated fails on a closed pool, where the connection is destroyed and
  \<open>total\<close> decremented, and with \<open>maxLifetimeMs = 0\<close>, where the record just made is
  judged expired and the connection destroyed.
\<close>

theorem foreign_release_counterexample:
  "release (pool_config_of \<lparr>opt_size = Some (Whole 1), opt_acquireTimeout = None,
        opt_maxWaitingRequests = Some 1, opt_maxLifetimeMs = None, opt_idleTimeoutMs = None,
        opt_setup = False\<rparr>) 9 rp0 (at_capacity_1\<lparr>closed := True\<rparr>)
     = (at_capacity_1\<lparr>closed := True\<rparr>, Suspended (RelClosed 9), [Destroy 9])
   \<and> resume (pool_config_of \<lparr>opt_size = Some (Whole 1), opt_acquireTimeout = None,
        opt_maxWaitingRequests = Some 1, opt_maxLifetimeMs = None, opt_idleTimeoutMs = None,
        opt_setup = False\<rparr>) (RelClosed 9) rp0 (at_capacity_1\<lparr>closed := True\<rparr>)
     = (at_capacity_1\<lparr>closed := True, total := 0\<rparr>, Completed, [])
   \<and> release (pool_config_of \<lparr>opt_size = Some (Whole 1), opt_acquireTimeout = None,
        opt_maxWaitingRequests = Some 1, opt_maxLifetimeMs = Some 0, opt_idleTimeoutMs = None,
        opt_setup = False\<rparr>) 9 rp0 at_capacity_1
     = (at_capacity_1\<lparr>metadata := (metadata at_capacity_1)(9 \<mapsto> \<lparr>m_createdAt = 10, m_lastUsedAt = 10\<rparr>)\<rparr>,
        Suspended (RelExpired 9), [Destroy 9])"
  by (simp add: release_def resume_def forget_def meta_or_now_def expired_def pool_config_of_def
      at_capacity_1_def rp0_def Let_def)

text \<open>
  Claim C7 at a connection whose \<open>close\<close> raises, released to a closed pool:
  \<open>release\<close> awaits \<open>closeClientConnection\<close> outside any \<open>try\<close>, and the error is raised
  to its caller.
\<close>

theorem release_raises_when_destroy_raises:
  "release (pool_config_of \<lparr>opt_size = Some (Whole 1), opt_acquireTimeout = None,
        opt_maxWaitingRequests = Some 1, opt_maxLifetimeMs = None, opt_idleTimeoutMs = None,
        opt_setup = False\<rparr>) 7 rp0 (at_capacity_1\<lparr>closed := True\<rparr>)
     = (at_capacity_1\<lparr>closed := True\<rparr>, Suspended (RelClosed 7), [Destroy 7])
   \<and> resume (pool_config_of \<lparr>opt_size = Some (Whole 1), opt_acquireTimeout = None,
        opt_maxWaitingRequests = Some 1, opt_maxLifetimeMs = None, opt_idleTimeoutMs = None,
        opt_setup = False\<rparr>) (RelClosed 7) (rp0\<lparr>destroyed := Some (Failure ''close failed'')\<rparr>)
        (at_capacity_1\<lparr>closed := True\<rparr>)
     = (at_capacity_1\<lparr>closed := True\<rparr>, Failed (Failure ''close failed''), [])"
  by (simp add: release_def resume_def at_capacity_1_def rp0_def Let_def)

text \<open>
  A \<open>release\<close> does not raise as long as no destruction raises.
\<close>

lemma deliver_harmless: "d \<noteq> ToCaller \<Longrightarrow> harmless (fst (snd (deliver d r p)))"
  by (cases d) (simp_all add: deliver_def harmless_def)

lemma acquire_harmless: "d \<noteq> ToCaller \<Longrightarrow> harmless (fst (snd (acquire cfg d rp p)))"
  by (cases d)
    (auto simp: acquire_def acquire_scan_def acquire_after_scan_def deliver_def harmless_def
      of_release_def split: list.splits)

lemma release_harmless: "harmless (fst (snd (release cfg c rp p)))"
  by (auto simp: release_def harmless_def of_release_def Let_def split: list.splits)

lemma resume_harmless:
  assumes "of_release t" and "destroyed rp = None"
  shows "harmless (fst (snd (resume cfg t rp p)))"
proof (cases t)
  case (RelWaiterExpired c w)
  with assms show ?thesis by (simp add: resume_def acquire_harmless)
next
  case (AcqRecycle pooled d)
  with assms have "d \<noteq> ToCaller" by (simp add: of_release_def)
  then obtain w where "d = ToWaiter w" by (cases d) auto
  with AcqRecycle assms show ?thesis
    by (auto simp: resume_def acquire_scan_def acquire_after_scan_def deliver_def harmless_def
        of_release_def split: list.splits)
qed (use assms in \<open>auto simp: resume_def of_release_def harmless_def deliver_def create_failed_def
      acquire_created_def split: dest.splits sum.splits option.splits\<close>)

text \<open>
  The new pool after as many \<open>acquire\<close>s as its size, none released: nothing idle,
  nobody waiting, \<open>total\<close> at the size.
\<close>

lemma checkout_creates:
  assumes "\<not> closed p" and "idle p = []" and "total p < poolSize cfg"
  shows "checkout cfg c p =
     (p\<lparr>total := total p + 1,
        metadata := (metadata p)(c \<mapsto> \<lparr>m_createdAt = 0, m_lastUsedAt = 0\<rparr>)\<rparr>,
      Gave c, if hasSetup cfg then [Create, Setup c] else [Create])"
  using assms
  by (simp add: checkout_def acquire_def acquire_scan_def acquire_after_scan_def resume_def
      acquire_created_def deliver_def answer_def)

lemma checkouts_fill:
  "\<not> closed p \<Longrightarrow> idle p = [] \<Longrightarrow> total p + int (length cs) \<le> poolSize cfg \<Longrightarrow>
     \<not> closed (checkouts cfg cs p) \<and> idle (checkouts cfg cs p) = []
     \<and> waiting (checkouts cfg cs p) = waiting p
     \<and> total (checkouts cfg cs p) = total p + int (length cs)"
proof (induction cs arbitrary: p)
  case Nil
  then show ?case by simp
next
  case (Cons c cs)
  from Cons.prems have "total p < poolSize cfg" by simp
  from checkout_creates [OF Cons.prems(1,2) this, of c]
  have f: "fst (checkout cfg c p) = p\<lparr>total := total p + 1,
        metadata := (metadata p)(c \<mapsto> \<lparr>m_createdAt = 0, m_lastUsedAt = 0\<rparr>)\<rparr>"
    by simp
  from Cons.prems have "\<not> closed (fst (checkout cfg c p))" "idle (fst (checkout cfg c p)) = []"
    "total (fst (checkout cfg c p)) + int (length cs) \<le> poolSize cfg"
    by (simp_all add: f)
  from Cons.IH [OF this] show ?case by (simp add: f)
qed

lemma full_pool:
  assumes "length cs = nat (poolSize cfg)" and "0 \<le> poolSize cfg"
  shows "\<not> closed (checkouts cfg cs createDuckDBConnectionPool)
     \<and> idle (checkouts cfg cs createDuckDBConnectionPool) = []
     \<and> waiting (checkouts cfg cs createDuckDBConnectionPool) = []
     \<and> total (checkouts cfg cs createDuckDBConnectionPool) = poolSize cfg"
  using checkouts_fill [of createDuckDBConnectionPool cs cfg] assms
  by (simp add: createDuckDBConnectionPool_def)

text \<open>
  What a run leaves behind changes only the timers and the settled promises.
\<close>

lemma handed_deliver:
  "handed (deliver d r p) = (case r of Inr c \<Rightarrow> [c] | Inl e \<Rightarrow> [])"
  by (simp add: handed_def deliver_def settled_conns_def split: dest.splits sum.splits)

lemma note_fields [simp]:
  "pl (foldl (note_effect t ch) s effs) = pl s"
  "suspended (foldl (note_effect t ch) s effs) = suspended s"
  "next_timer (foldl (note_effect t ch) s effs) = next_timer s"
  "made (foldl (note_effect t ch) s effs) = made s"
  "born (foldl (note_effect t ch) s effs) = born s"
proof (induction effs arbitrary: s)
  case Nil
  { case 1 show ?case by simp }
  { case 2 show ?case by simp }
  { case 3 show ?case by simp }
  { case 4 show ?case by simp }
  { case 5 show ?case by simp }
next
  case (Cons e effs)
  { case 1 show ?case by (cases e) (simp_all add: Cons.IH) }
  { case 2 show ?case by (cases e) (simp_all add: Cons.IH) }
  { case 3 show ?case by (cases e) (simp_all add: Cons.IH) }
  { case 4 show ?case by (cases e) (simp_all add: Cons.IH) }
  { case 5 show ?case by (cases e) (simp_all add: Cons.IH) }
qed

lemma note_destroys [simp]:
  "foldl (note_effect t ch) s (map (\<lambda>item. Destroy (connection item)) items) = s"
  by (induction items arbitrary: s) simp_all

lemma note_close:
  "settlements (foldl (note_effect t ch) s
       (concat (map (\<lambda>w. [ClearTimer w, Settle w (Inl PoolClosed)]) ws))) w
     = (if w \<in> set ws then Some (Inl PoolClosed, ch) else settlements s w)
   \<and> timers (foldl (note_effect t ch) s
       (concat (map (\<lambda>w. [ClearTimer w, Settle w (Inl PoolClosed)]) ws))) w
     = (if w \<in> set ws then None else timers s w)"
  by (induction ws arbitrary: s) auto

text \<open>
  A queued waiter stays queued, through every run that leaves it alone.
\<close>

lemma dest_waiter_deliver:
  "w \<notin> set (dest_waiter d) \<Longrightarrow> Settle w r \<notin> set (snd (snd (deliver d x p)))"
  by (cases d) (auto simp: deliver_def)

lemmas sys_defs = sys_step_def absorb_def before_def the_reply_def chosen_def settlement_for_def
  step_def Let_def

lemmas acquire_defs = acquire_def acquire_scan_def acquire_after_scan_def deliver_def
  create_failed_def acquire_created_def forget_def

lemma queued_resume:
  assumes "queued w d due s" and "enabled (Resume tk) rp s"
  shows "queued w d due (sys_step cfg (Resume tk) rp s)"
proof -
  from assms have tk: "tk \<in> set (suspended s)" by (simp add: enabled_def)
  with assms(1) have nt: "w \<notin> set (targets tk)" by (simp add: queued_def)
  from assms have ne: "tk \<noteq> AcqQueued w d" by (auto simp: enabled_def queued_def)
  with assms(1) have keep: "AcqQueued w d \<in> set (remove1 tk (suspended s))"
    by (simp add: queued_def in_set_remove1)
  from assms(1) have keep2: "\<forall>tk' \<in> set (remove1 tk (suspended s)). w \<notin> set (targets tk')"
    using set_remove1_subset [of tk "suspended s"] by (auto simp: queued_def)
  from assms(1) have q: "w \<in> set (waiting (pl s))" "timers s w = Some due" "settlements s w = None"
    "w < next_timer s" by (simp_all add: queued_def)
  show ?thesis
  proof (cases tk)
    case (AcqRecycle pooled d')
    with nt keep keep2 q show ?thesis
      by (cases d')
        (auto simp: queued_def sys_defs resume_def acquire_defs split: list.splits option.splits)
  next
    case (AcqCreate d')
    with nt keep keep2 q show ?thesis
      by (cases d')
        (auto simp: queued_def sys_defs resume_def acquire_defs split: list.splits option.splits sum.splits)
  next
    case (AcqSetup c d')
    with nt keep keep2 q show ?thesis
      by (cases d')
        (auto simp: queued_def sys_defs resume_def acquire_defs split: list.splits option.splits sum.splits)
  next
    case (AcqSetupFailed c e d')
    with nt keep keep2 q show ?thesis
      by (cases d')
        (auto simp: queued_def sys_defs resume_def acquire_defs split: list.splits option.splits sum.splits)
  next
    case (AcqClosedDestroy c d')
    with nt keep keep2 q show ?thesis
      by (cases d')
        (auto simp: queued_def sys_defs resume_def acquire_defs split: list.splits option.splits sum.splits)
  next
    case (AcqQueued w' d')
    with nt keep keep2 q ne show ?thesis
      by (cases d')
        (auto simp: queued_def sys_defs resume_def acquire_defs split: list.splits option.splits sum.splits)
  next
    case (RelWaiterClosed c w')
    with nt keep keep2 q show ?thesis
      by (auto simp: queued_def sys_defs resume_def acquire_defs split: list.splits option.splits sum.splits)
  next
    case (RelWaiterExpired c w')
    with nt keep keep2 q show ?thesis
      by (auto simp: queued_def sys_defs resume_def acquire_defs split: list.splits option.splits sum.splits)
  next
    case (RelClosed c)
    with nt keep keep2 q show ?thesis
      by (auto simp: queued_def sys_defs resume_def acquire_defs split: list.splits option.splits sum.splits)
  next
    case (RelExpired c)
    with nt keep keep2 q show ?thesis
      by (auto simp: queued_def sys_defs resume_def acquire_defs split: list.splits option.splits sum.splits)
  next
    case (CloseIdle toClose)
    with nt keep keep2 q show ?thesis
      by (auto simp: queued_def sys_defs resume_def close_wait_def)
  next
    case (CloseWait start)
    with nt keep keep2 q show ?thesis
      by (auto simp: queued_def sys_defs resume_def close_wait_def)
  qed
qed

lemma queued_step:
  assumes "queued w d due s" and "enabled a rp s" and "leaves w a s"
  shows "queued w d due (sys_step cfg a rp s)"
proof (cases a)
  case Acquire
  with assms show ?thesis
    by (auto simp: queued_def sys_defs acquire_defs split: list.splits)
next
  case (Release c)
  with assms show ?thesis
    by (auto simp: queued_def leaves_def sys_defs release_def split: list.splits)
next
  case Close
  with assms show ?thesis by (simp add: leaves_def)
next
  case (Timeout w')
  with assms show ?thesis
    by (auto simp: queued_def leaves_def sys_defs timeout_def)
next
  case (Resume tk)
  with assms queued_resume show ?thesis by simp
qed

lemma queued_steps:
  "queued w d due s \<Longrightarrow> passes cfg w steps s \<Longrightarrow> queued w d due (sys_steps cfg steps s)"
proof (induction steps arbitrary: s)
  case Nil
  then show ?case by simp
next
  case (Cons x steps)
  obtain a rp where x: "x = (a, rp)" by (cases x) auto
  from Cons.prems x have "queued w d due (sys_step cfg a rp s)" "passes cfg w steps (sys_step cfg a rp s)"
    by (simp_all add: queued_step)
  from Cons.IH [OF this] x show ?case by simp
qed


text \<open>
  The records stay true.  A run that starts from true records, and that releases only a
  connection the pool has a record of, ends with true records, and a connection it
  hands out is not older than the lifetime: one it pops from the idle stack or gets
  released was not judged expired, and one it has created is new.
\<close>

lemma reborn_known: "\<forall>c \<in> set (handed r). B c \<noteq> None \<Longrightarrow> reborn B ch r = B"
  by (auto simp: reborn_def fun_eq_iff)

lemma stamps_forget: "stamps B p \<Longrightarrow> stamps B (forget c p)"
  by (simp add: stamps_def forget_def)

lemma stamps_scan:
  assumes "stamps B p" and "maxLifetimeMs cfg = Some L"
  shows "stamps B (fst (acquire_scan cfg d rp p))
       \<and> (\<forall>c \<in> set (handed (acquire_scan cfg d rp p)). \<exists>b. B c = Some b \<and> now rp - b < L)"
  using assms
  by (cases d)
    (auto simp: stamps_def acquire_scan_def acquire_after_scan_def deliver_def handed_def
      settled_conns_def shouldRecycle_def split: list.splits if_splits)

lemma stamps_acquire:
  assumes "stamps B p" and "maxLifetimeMs cfg = Some L"
  shows "stamps B (fst (acquire cfg d rp p))
       \<and> (\<forall>c \<in> set (handed (acquire cfg d rp p)). \<exists>b. B c = Some b \<and> now rp - b < L)"
  using stamps_scan [OF assms]
  by (cases d) (auto simp: acquire_def deliver_def handed_def settled_conns_def assms(1))

lemma stamps_release:
  assumes "stamps B p" and "maxLifetimeMs cfg = Some L" and "metadata p c \<noteq> None"
  shows "stamps B (fst (release cfg c rp p))
       \<and> (\<forall>c' \<in> set (handed (release cfg c rp p)). \<exists>b. B c' = Some b \<and> now rp - b < L)"
  using assms
  by (auto simp: stamps_def release_def meta_or_now_def expired_def handed_def settled_conns_def
      Let_def split: list.splits if_splits)

lemma stamps_created:
  assumes "stamps B p" and "B c = None"
  shows "stamps (reborn B (now rp) (acquire_created d rp c p)) (fst (acquire_created d rp c p))
       \<and> (\<forall>c' \<in> set (handed (acquire_created d rp c p)).
            c' = c \<and> reborn B (now rp) (acquire_created d rp c p) c' = Some (now rp))"
  using assms
  by (cases d)
    (auto simp: stamps_def acquire_created_def deliver_def handed_def settled_conns_def reborn_def)


lemma handed_quiet [simp]:
  "handed (p, Suspended tk, []) = []" "handed (p, Completed, []) = []" "handed (p, Failed e, []) = []"
  "handed (p, Suspended tk, [Destroy c]) = []" "handed (p, Suspended tk, [Setup c]) = []"
  by (simp_all add: handed_def settled_conns_def)

lemma handed_create_failed [simp]: "handed (create_failed d e p) = []"
  by (simp add: create_failed_def handed_deliver)

lemma stamps_create_failed [simp]: "stamps B (fst (create_failed d e p)) = stamps B p"
  by (simp add: create_failed_def stamps_def)

lemma stamps_resume:
  assumes "stamps B p" and "maxLifetimeMs cfg = Some L" and "0 \<le> L"
    and fresh: "\<forall>d c. tk = AcqCreate d \<longrightarrow> created rp = Inr c \<longrightarrow> B c = None"
    and insetup: "\<forall>c d. tk = AcqSetup c d \<longrightarrow> B c = None"
    and fwd: "\<forall>w d c. tk = AcqQueued w d \<longrightarrow> settled rp = Inr c \<longrightarrow> (\<exists>b. B c = Some b \<and> ch - b \<le> L)"
    and time: "(\<forall>w d. tk \<noteq> AcqQueued w d) \<longrightarrow> ch = now rp"
  shows "stamps (reborn B ch (resume cfg tk rp p)) (fst (resume cfg tk rp p))
       \<and> (\<forall>c \<in> set (handed (resume cfg tk rp p)).
             \<exists>b. reborn B ch (resume cfg tk rp p) c = Some b \<and> ch - b \<le> L)
       \<and> (\<forall>c. B c = None \<longrightarrow> reborn B ch (resume cfg tk rp p) c \<noteq> None \<longrightarrow>
             (\<exists>d. tk = AcqCreate d \<and> created rp = Inr c) \<or> (\<exists>d. tk = AcqSetup c d))"
proof (cases tk)
  case (AcqRecycle pooled d)
  show ?thesis
  proof (cases "destroyed rp")
    case None
    from stamps_scan [OF stamps_forget [OF assms(1), where c = "connection pooled"] assms(2),
        where d = d and rp = rp]
    have a: "stamps B (fst (resume cfg tk rp p))"
      and b: "\<forall>c \<in> set (handed (resume cfg tk rp p)). \<exists>b. B c = Some b \<and> now rp - b < L"
      by (simp_all add: resume_def AcqRecycle None)
    from b have "reborn B ch (resume cfg tk rp p) = B" by (intro reborn_known) auto
    with a b time AcqRecycle show ?thesis by fastforce
  next
    case (Some e)
    with AcqRecycle assms(1) show ?thesis
      by (simp add: resume_def handed_deliver reborn_def)
  qed
next
  case (AcqCreate d)
  show ?thesis
  proof (cases "created rp")
    case (Inl e)
    with AcqCreate assms(1) show ?thesis by (simp add: resume_def reborn_def)
  next
    case (Inr c)
    with fresh AcqCreate have n: "B c = None" by simp
    show ?thesis
    proof (cases "hasSetup cfg")
      case True
      with AcqCreate Inr assms(1) show ?thesis by (simp add: resume_def reborn_def)
    next
      case False
      from stamps_created [OF assms(1) n, where rp = rp and d = d] time AcqCreate Inr False assms(3)
      show ?thesis
        by (auto simp: resume_def reborn_def)
    qed
  qed
next
  case (AcqSetup c d)
  with insetup have n: "B c = None" by simp
  show ?thesis
  proof (cases "setup_done rp")
    case None
    from stamps_created [OF assms(1) n, where rp = rp and d = d] time AcqSetup None assms(3)
    show ?thesis
      by (auto simp: resume_def reborn_def)
  next
    case (Some e)
    with AcqSetup assms(1) show ?thesis by (simp add: resume_def reborn_def)
  qed
next
  case (AcqSetupFailed c e d)
  with assms(1) show ?thesis by (simp add: resume_def reborn_def split: option.splits)
next
  case (AcqClosedDestroy c d)
  from assms(1) have "stamps B (p\<lparr>total := total p - 1\<rparr>)" by (simp add: stamps_def)
  with AcqClosedDestroy assms(1) show ?thesis by (simp add: resume_def reborn_def split: option.splits)
next
  case (AcqQueued w d)
  show ?thesis
  proof (cases "settled rp")
    case (Inl e)
    with AcqQueued assms(1) show ?thesis
      by (simp add: resume_def reborn_def handed_deliver)
  next
    case (Inr c)
    with fwd AcqQueued obtain b where b: "B c = Some b" "ch - b \<le> L" by blast
    with Inr AcqQueued have "reborn B ch (resume cfg tk rp p) = B"
      by (intro reborn_known) (simp add: resume_def handed_deliver)
    with Inr AcqQueued assms(1) b show ?thesis
      by (simp add: resume_def handed_deliver)
  qed
next
  case (RelWaiterClosed c w)
  with assms(1) show ?thesis
    by (auto simp: resume_def reborn_def handed_def settled_conns_def stamps_def forget_def
        split: option.splits)
next
  case (RelWaiterExpired c w)
  show ?thesis
  proof (cases "destroyed rp")
    case None
    from stamps_acquire [OF stamps_forget [OF assms(1), where c = c] assms(2),
        where d = "ToWaiter w" and rp = rp]
    have a: "stamps B (fst (resume cfg tk rp p))"
      and b: "\<forall>c \<in> set (handed (resume cfg tk rp p)). \<exists>b. B c = Some b \<and> now rp - b < L"
      by (simp_all add: resume_def RelWaiterExpired None)
    from b have "reborn B ch (resume cfg tk rp p) = B" by (intro reborn_known) auto
    with a b time RelWaiterExpired show ?thesis by fastforce
  next
    case (Some e)
    with RelWaiterExpired assms(1) show ?thesis
      by (simp add: resume_def reborn_def)
  qed
next
  case (RelClosed c)
  with assms(1) show ?thesis
    by (auto simp: resume_def reborn_def stamps_def forget_def split: option.splits)
next
  case (RelExpired c)
  with assms(1) show ?thesis
    by (auto simp: resume_def reborn_def stamps_def split: option.splits)
next
  case (CloseIdle toClose)
  with assms(1) show ?thesis
    by (auto simp: resume_def reborn_def stamps_def close_wait_def handed_def settled_conns_def)
next
  case (CloseWait start)
  with assms(1) show ?thesis
    by (auto simp: resume_def reborn_def stamps_def close_wait_def handed_def settled_conns_def)
qed

lemma stamps_step:
  assumes "stamps B p" and "maxLifetimeMs cfg = Some L" and "0 \<le> L"
    and rel: "\<forall>c. a = Release c \<longrightarrow> metadata p c \<noteq> None"
    and fresh: "\<forall>d c. a = Resume (AcqCreate d) \<longrightarrow> created rp = Inr c \<longrightarrow> B c = None"
    and insetup: "\<forall>c d. a = Resume (AcqSetup c d) \<longrightarrow> B c = None"
    and fwd: "\<forall>w d c. a = Resume (AcqQueued w d) \<longrightarrow> settled rp = Inr c \<longrightarrow> (\<exists>b. B c = Some b \<and> ch - b \<le> L)"
    and time: "(\<forall>w d. a \<noteq> Resume (AcqQueued w d)) \<longrightarrow> ch = now rp"
  shows "stamps (reborn B ch (step cfg a rp p)) (fst (step cfg a rp p))
       \<and> (\<forall>c \<in> set (handed (step cfg a rp p)).
             \<exists>b. reborn B ch (step cfg a rp p) c = Some b \<and> ch - b \<le> L)
       \<and> (\<forall>c. B c = None \<longrightarrow> reborn B ch (step cfg a rp p) c \<noteq> None \<longrightarrow>
             (\<exists>d. a = Resume (AcqCreate d) \<and> created rp = Inr c) \<or> (\<exists>d. a = Resume (AcqSetup c d)))"
proof (cases a)
  case Acquire
  from stamps_acquire [OF assms(1,2), where d = ToCaller and rp = rp]
  have a: "stamps B (fst (step cfg a rp p))"
    and b: "\<forall>c \<in> set (handed (step cfg a rp p)). \<exists>b. B c = Some b \<and> now rp - b < L"
    by (simp_all add: step_def Acquire)
  from b have "reborn B ch (step cfg a rp p) = B" by (intro reborn_known) auto
  with a b time Acquire show ?thesis by fastforce
next
  case (Release c)
  with rel have "metadata p c \<noteq> None" by simp
  from stamps_release [OF assms(1,2) this, where rp = rp]
  have a: "stamps B (fst (step cfg a rp p))"
    and b: "\<forall>c \<in> set (handed (step cfg a rp p)). \<exists>b. B c = Some b \<and> now rp - b < L"
    by (simp_all add: step_def Release)
  from b have "reborn B ch (step cfg a rp p) = B" by (intro reborn_known) auto
  with a b time Release show ?thesis by fastforce
next
  case Close
  with assms(1) show ?thesis
    by (simp add: step_def close_def handed_def settled_conns_def reborn_def stamps_def)
next
  case (Timeout w)
  with assms(1) show ?thesis
    by (simp add: step_def timeout_def handed_def settled_conns_def reborn_def stamps_def)
next
  case (Resume tk)
  from stamps_resume [OF assms(1-3), where tk = tk and rp = rp and ch = ch] fresh insetup fwd time Resume
  show ?thesis by (simp add: step_def)
qed


text \<open>
  The state after a run, field by field.
\<close>

lemma before_fields [simp]:
  "pl (before a rp s) = pl s" "born (before a rp s) = born s"
  "next_timer (before a rp s) = Suc (next_timer s)"
  by (simp_all add: before_def split: action.splits task.splits)

lemma before_made:
  "made (before a rp s) =
     (case a of
        Resume tk \<Rightarrow>
          (case tk of
             AcqCreate d \<Rightarrow> (case created rp of Inr c \<Rightarrow> insert c (made s) | Inl e \<Rightarrow> made s)
           | _ \<Rightarrow> made s)
      | _ \<Rightarrow> made s)"
  by (simp add: before_def split: action.splits task.splits)

lemma before_suspended:
  "suspended (before a rp s) = (case a of Resume tk \<Rightarrow> remove1 tk (suspended s) | _ \<Rightarrow> suspended s)"
  by (simp add: before_def split: action.splits task.splits)

lemma sys_step_fields:
  "pl (sys_step cfg a rp s) = fst (step cfg a (the_reply a rp s) (pl s))"
  "born (sys_step cfg a rp s) = reborn (born s) (chosen a rp s) (step cfg a (the_reply a rp s) (pl s))"
  "made (sys_step cfg a rp s) = made (before a rp s)"
  "suspended (sys_step cfg a rp s) =
     suspended (before a rp s)
     @ (case fst (snd (step cfg a (the_reply a rp s) (pl s))) of Suspended tk \<Rightarrow> [tk] | _ \<Rightarrow> [])"
  "next_timer (sys_step cfg a rp s) = Suc (next_timer s)"
  by (simp_all add: sys_step_def absorb_def reborn_def Let_def cong: if_cong)

lemma settlements_note:
  "settlements (foldl (note_effect t ch) s effs) w = Some v \<Longrightarrow>
     settlements s w = Some v \<or> (\<exists>r. Settle w r \<in> set effs \<and> v = (r, ch))"
proof (induction effs arbitrary: s)
  case Nil
  then show ?case by simp
next
  case (Cons e effs)
  from Cons.IH [of "note_effect t ch s e"] Cons.prems
  have "settlements (note_effect t ch s e) w = Some v \<or> (\<exists>r. Settle w r \<in> set effs \<and> v = (r, ch))"
    by simp
  then show ?case by (cases e) (auto split: if_splits)
qed

lemma settlements_before:
  "settlements (before a rp s) w = Some v \<Longrightarrow> settlements s w = Some v"
  by (auto simp: before_def split: action.splits task.splits if_splits)

lemma settlements_sys_step:
  assumes "settlements (sys_step cfg a rp s) w = Some v"
  shows "settlements s w = Some v
       \<or> (\<exists>r. Settle w r \<in> set (snd (snd (step cfg a (the_reply a rp s) (pl s))))
              \<and> v = (r, chosen a rp s))"
proof -
  from assms have "settlements (foldl (note_effect (now rp) (chosen a rp s)) (before a rp s)
      (snd (snd (step cfg a (the_reply a rp s) (pl s))))) w = Some v"
    by (simp add: sys_step_def absorb_def Let_def)
  from settlements_note [OF this] settlements_before show ?thesis by blast
qed

lemma settle_handed: "Settle w (Inr c) \<in> set (snd (snd r)) \<Longrightarrow> c \<in> set (handed r)"
  by (force simp: handed_def settled_conns_def)

lemma in_setting_up: "AcqSetup c d \<in> set tks \<Longrightarrow> c \<in> set (setting_up tks)"
  by (force simp: setting_up_def)

lemma setting_up_remove1:
  "distinct (setting_up tks) \<Longrightarrow>
     distinct (setting_up (remove1 tk tks))
     \<and> set (setting_up (remove1 tk tks)) \<subseteq> set (setting_up tks)
     \<and> (\<forall>c d. tk = AcqSetup c d \<longrightarrow> tk \<in> set tks \<longrightarrow> c \<notin> set (setting_up (remove1 tk tks)))"
proof (induction tks)
  case Nil
  then show ?case by (simp add: setting_up_def)
next
  case (Cons x tks)
  then show ?case
    by (cases x) (auto simp: setting_up_def split: task.splits dest: set_remove1_subset [THEN subsetD])
qed

lemma new_setup:
  "fst (snd (step cfg a rp p)) = Suspended (AcqSetup c d) \<Longrightarrow>
     a = Resume (AcqCreate d) \<and> created rp = Inr c \<and> handed (step cfg a rp p) = []"
  by (cases a)
    (auto simp: step_def acquire_defs release_def close_def timeout_def resume_def close_wait_def
      Let_def split: list.splits if_splits dest.splits sum.splits option.splits task.splits)

lemma setting_up_append [simp]: "setting_up (xs @ ys) = setting_up xs @ setting_up ys"
  by (simp add: setting_up_def)

lemma setting_up_new:
  "setting_up (case st of Suspended tk \<Rightarrow> [tk] | _ \<Rightarrow> []) =
     (case st of Suspended tk \<Rightarrow> (case tk of AcqSetup c d \<Rightarrow> [c] | _ \<Rightarrow> []) | _ \<Rightarrow> [])"
  by (simp add: setting_up_def split: status.splits)


text \<open>
  Every enabled run that releases only recorded connections keeps the state \<open>orderly\<close>,
  and hands out only connections that were not older than the lifetime when they were
  chosen.
\<close>

lemma reborn_keeps: "B c = Some b \<Longrightarrow> reborn B ch r c = Some b"
  by (simp add: reborn_def)

lemma orderly_step:
  assumes o: "orderly L s" and l: "maxLifetimeMs cfg = Some L" "0 \<le> L"
    and en: "enabled a rp s" and rc: "recorded a s"
  shows "orderly L (sys_step cfg a rp s)
       \<and> (\<forall>c \<in> set (handed (step cfg a (the_reply a rp s) (pl s))).
             \<exists>b. born (sys_step cfg a rp s) c = Some b \<and> chosen a rp s - b \<le> L)"
proof -
  define r where "r = step cfg a (the_reply a rp s) (pl s)"
  define ch where "ch = chosen a rp s"
  define B' where "B' = reborn (born s) ch r"
  from o have st: "stamps (born s) (pl s)"
    and se: "\<forall>w c x. settlements s w = Some (Inr c, x) \<longrightarrow> (\<exists>b. born s c = Some b \<and> x - b \<le> L)"
    and dm: "dom (born s) \<subseteq> made s"
    and di: "distinct (setting_up (suspended s))"
    and su: "\<forall>c \<in> set (setting_up (suspended s)). c \<in> made s \<and> born s c = None"
    by (simp_all add: orderly_def)
  have rel: "\<forall>c. a = Release c \<longrightarrow> metadata (pl s) c \<noteq> None"
    using rc by (auto simp: recorded_def)
  have fresh: "\<forall>d c. a = Resume (AcqCreate d) \<longrightarrow> created (the_reply a rp s) = Inr c \<longrightarrow> born s c = None"
    using en dm by (auto simp: enabled_def the_reply_def)
  have insetup: "\<forall>c d. a = Resume (AcqSetup c d) \<longrightarrow> born s c = None"
    using en su in_setting_up by (fastforce simp: enabled_def)
  have fwd: "\<forall>w d c. a = Resume (AcqQueued w d) \<longrightarrow> settled (the_reply a rp s) = Inr c \<longrightarrow>
      (\<exists>b. born s c = Some b \<and> ch - b \<le> L)"
    using en se by (auto simp: enabled_def the_reply_def chosen_def ch_def settlement_for_def)
  have time: "(\<forall>w d. a \<noteq> Resume (AcqQueued w d)) \<longrightarrow> ch = now (the_reply a rp s)"
    by (auto simp: ch_def chosen_def settlement_for_def the_reply_def split: action.splits task.splits)
  from stamps_step [OF st l rel fresh insetup fwd time]
  have 1: "stamps B' (fst r)"
    and 2: "\<forall>c \<in> set (handed r). \<exists>b. B' c = Some b \<and> ch - b \<le> L"
    and 3: "\<forall>c. born s c = None \<longrightarrow> B' c \<noteq> None \<longrightarrow>
             (\<exists>d. a = Resume (AcqCreate d) \<and> created (the_reply a rp s) = Inr c)
             \<or> (\<exists>d. a = Resume (AcqSetup c d))"
    by (simp_all add: r_def B'_def)
  have f: "pl (sys_step cfg a rp s) = fst r" "born (sys_step cfg a rp s) = B'"
    by (simp_all add: sys_step_fields r_def B'_def ch_def)
  have 4: "\<forall>w c x. settlements (sys_step cfg a rp s) w = Some (Inr c, x) \<longrightarrow>
      (\<exists>b. B' c = Some b \<and> x - b \<le> L)"
  proof (intro allI impI)
    fix w c x
    assume "settlements (sys_step cfg a rp s) w = Some (Inr c, x)"
    from settlements_sys_step [OF this]
    show "\<exists>b. B' c = Some b \<and> x - b \<le> L"
    proof
      assume "settlements s w = Some (Inr c, x)"
      with se obtain b where "born s c = Some b" "x - b \<le> L" by blast
      then show ?thesis by (auto simp: B'_def reborn_keeps)
    next
      assume "\<exists>r'. Settle w r' \<in> set (snd (snd (step cfg a (the_reply a rp s) (pl s))))
          \<and> (Inr c, x) = (r', chosen a rp s)"
      then have "Settle w (Inr c) \<in> set (snd (snd r))" "x = ch" by (auto simp: r_def ch_def)
      with settle_handed 2 show ?thesis by blast
    qed
  qed
  have m: "made s \<subseteq> made (sys_step cfg a rp s)"
    by (auto simp: sys_step_fields before_made split: action.splits task.splits sum.splits)
  have 5: "dom B' \<subseteq> made (sys_step cfg a rp s)"
  proof
    fix c assume c: "c \<in> dom B'"
    show "c \<in> made (sys_step cfg a rp s)"
    proof (cases "born s c")
      case (Some b)
      with dm m show ?thesis by auto
    next
      case None
      with 3 c have "(\<exists>d. a = Resume (AcqCreate d) \<and> created (the_reply a rp s) = Inr c)
             \<or> (\<exists>d. a = Resume (AcqSetup c d))" by auto
      then show ?thesis
      proof
        assume "\<exists>d. a = Resume (AcqCreate d) \<and> created (the_reply a rp s) = Inr c"
        then show ?thesis
          by (auto simp: sys_step_fields before_made the_reply_def)
      next
        assume "\<exists>d. a = Resume (AcqSetup c d)"
        with en su m in_setting_up show ?thesis by (fastforce simp: enabled_def)
      qed
    qed
  qed
  define T0 where "T0 = suspended (before a rp s)"
  have t0: "distinct (setting_up T0) \<and> set (setting_up T0) \<subseteq> set (setting_up (suspended s))
      \<and> (\<forall>c d. a = Resume (AcqSetup c d) \<longrightarrow> c \<notin> set (setting_up T0))"
  proof (cases a)
    case (Resume tk)
    with en have "tk \<in> set (suspended s)" by (simp add: enabled_def)
    with setting_up_remove1 [OF di, of tk] Resume show ?thesis
      by (auto simp: T0_def before_suspended)
  qed (use di in \<open>simp_all add: T0_def before_suspended\<close>)
  have old: "\<forall>c \<in> set (setting_up T0). c \<in> made (sys_step cfg a rp s) \<and> B' c = None"
  proof
    fix c assume c: "c \<in> set (setting_up T0)"
    with t0 su have k: "c \<in> made s" "born s c = None" by auto
    have "B' c = None"
    proof (rule ccontr)
      assume "B' c \<noteq> None"
      with 3 k have "(\<exists>d. a = Resume (AcqCreate d) \<and> created (the_reply a rp s) = Inr c)
             \<or> (\<exists>d. a = Resume (AcqSetup c d))" by auto
      then show False
      proof
        assume "\<exists>d. a = Resume (AcqCreate d) \<and> created (the_reply a rp s) = Inr c"
        with en k show False by (auto simp: enabled_def the_reply_def)
      next
        assume "\<exists>d. a = Resume (AcqSetup c d)"
        with t0 c show False by auto
      qed
    qed
    with k m show "c \<in> made (sys_step cfg a rp s) \<and> B' c = None" by auto
  qed
  have 6: "distinct (setting_up (suspended (sys_step cfg a rp s)))
      \<and> (\<forall>c \<in> set (setting_up (suspended (sys_step cfg a rp s))).
            c \<in> made (sys_step cfg a rp s) \<and> B' c = None)"
  proof (cases "\<exists>c d. fst (snd r) = Suspended (AcqSetup c d)")
    case False
    then have "setting_up (case fst (snd r) of Suspended tk \<Rightarrow> [tk] | _ \<Rightarrow> []) = []"
      by (auto simp: setting_up_new split: status.splits task.splits)
    with t0 old show ?thesis
      by (simp add: sys_step_fields T0_def [symmetric] r_def [symmetric])
  next
    case True
    then obtain c d where n: "fst (snd r) = Suspended (AcqSetup c d)" by blast
    from new_setup [OF n [unfolded r_def]]
    have x: "a = Resume (AcqCreate d) \<and> created (the_reply a rp s) = Inr c \<and> handed r = []"
      unfolding r_def by blast
    then have a: "a = Resume (AcqCreate d)" and h: "handed r = []" by simp_all
    from x have cr: "created rp = Inr c" by (simp add: the_reply_def)
    from a cr en have fr: "c \<notin> made s" by (simp add: enabled_def)
    with su t0 have nc: "c \<notin> set (setting_up T0)" by auto
    from fr dm have "born s c = None" by auto
    with h have bc: "B' c = None" by (simp add: B'_def reborn_def)
    from a cr have mc: "c \<in> made (sys_step cfg a rp s)"
      by (simp add: sys_step_fields before_made)
    from n have "setting_up (case fst (snd r) of Suspended tk \<Rightarrow> [tk] | _ \<Rightarrow> []) = [c]"
      by (simp add: setting_up_def)
    with t0 old nc bc mc show ?thesis
      by (simp add: sys_step_fields T0_def [symmetric] r_def [symmetric])
  qed
  from 1 2 4 5 6 show ?thesis
    by (simp add: orderly_def f r_def [symmetric] ch_def [symmetric])
qed


lemma orderly_new: "orderly L new_sys"
  by (simp add: orderly_def new_sys_def stamps_def createDuckDBConnectionPool_def setting_up_def)

lemma orderly_reachable_orderly:
  assumes "maxLifetimeMs cfg = Some L" and "0 \<le> L" and "s \<in> orderly_reachable cfg"
  shows "orderly L s"
  using assms(3)
proof induction
  case orderly_init
  show ?case by (rule orderly_new)
next
  case (orderly_next s a rp)
  from orderly_step [OF orderly_next.IH assms(1,2) orderly_next.hyps(2,3)] show ?case by simp
qed

lemma sys_reachable_pool: "s \<in> sys_reachable cfg \<Longrightarrow> pl s \<in> reachable cfg"
proof (induction rule: sys_reachable.induct)
  case sys_init
  show ?case by (simp add: new_sys_def reachable.init)
next
  case (sys_next s a rp)
  then show ?case by (simp add: sys_step_fields reachable.step)
qed

text \<open>
  The ids of the waiters in use stay below the next id, so that the id of a new waiter
  is a new one.
\<close>

lemma timers_note:
  "timers (foldl (note_effect t ch) s effs) w = Some v \<Longrightarrow>
     timers s w = Some v \<or> (\<exists>delay. SetTimer w delay \<in> set effs)"
proof (induction effs arbitrary: s)
  case Nil
  then show ?case by simp
next
  case (Cons e effs)
  from Cons.IH [of "note_effect t ch s e"] Cons.prems
  have "timers (note_effect t ch s e) w = Some v \<or> (\<exists>delay. SetTimer w delay \<in> set effs)"
    by simp
  then show ?case by (cases e) (auto split: if_splits)
qed

lemma timers_before: "timers (before a rp s) w = Some v \<Longrightarrow> timers s w = Some v"
  by (auto simp: before_def split: action.splits task.splits if_splits)

lemma names_deliver: "names (deliver d x p) \<subseteq> set (dest_waiter d) \<union> set (waiting p)"
  by (cases d) (auto simp: names_def deliver_def split: sum.splits)

lemma names_scan:
  "names (acquire_scan cfg d rp p) \<subseteq> set (dest_waiter d) \<union> set (waiting p) \<union> {timer rp}"
  by (cases d)
    (auto simp: names_def acquire_defs split: list.splits if_splits)

lemma names_acquire:
  "names (acquire cfg d rp p) \<subseteq> set (dest_waiter d) \<union> set (waiting p) \<union> {timer rp}"
  using names_scan [of cfg d rp p] names_deliver [of d "Inl PoolClosed" p]
  by (auto simp: acquire_def)

lemma names_step:
  "names (step cfg a rp p) \<subseteq>
     set (waiting p) \<union> {timer rp}
     \<union> (case a of Resume tk \<Rightarrow> set (targets tk) | Timeout w \<Rightarrow> {w} | _ \<Rightarrow> {})"
proof (cases a)
  case Acquire
  with names_acquire [of cfg ToCaller rp p] show ?thesis by (simp add: step_def)
next
  case (Release c)
  then show ?thesis
    by (auto simp: step_def names_def release_def Let_def split: list.splits if_splits)
next
  case Close
  then show ?thesis by (auto simp: step_def names_def close_def)
next
  case (Timeout w)
  then show ?thesis
    by (auto simp: step_def names_def timeout_def dest: set_remove1_subset [THEN subsetD])
next
  case (Resume tk)
  show ?thesis
  proof (cases tk)
    case (AcqRecycle pooled d)
    with Resume names_scan [of cfg d rp "forget (connection pooled) p"]
      names_deliver [of d _ p]
    show ?thesis
      by (auto simp: step_def resume_def forget_def split: option.splits)
  next
    case (RelWaiterExpired c w)
    with Resume names_acquire [of cfg "ToWaiter w" rp "forget c p"]
    show ?thesis
      by (auto simp: step_def resume_def forget_def names_def split: option.splits)
  qed (use Resume names_deliver in \<open>auto simp: step_def resume_def create_failed_def
        acquire_created_def names_def forget_def close_wait_def deliver_def
        split: option.splits sum.splits dest.splits\<close>)
qed



lemma ids_below_step:
  assumes i: "ids_below s" and en: "enabled a rp s"
  shows "ids_below (sys_step cfg a rp s)"
proof -
  define r where "r = step cfg a (the_reply a rp s) (pl s)"
  from names_step [of cfg a "the_reply a rp s" "pl s"]
  have "names r \<subseteq> set (waiting (pl s)) \<union> {next_timer s}
     \<union> (case a of Resume tk \<Rightarrow> set (targets tk) | Timeout w \<Rightarrow> {w} | _ \<Rightarrow> {})"
    by (simp add: r_def the_reply_def)
  moreover from i en have "(case a of Resume tk \<Rightarrow> set (targets tk) | Timeout w \<Rightarrow> {w} | _ \<Rightarrow> {})
      \<subseteq> {w. w < next_timer s}"
    by (auto simp: ids_below_def enabled_def split: action.splits option.splits)
  moreover from i have "set (waiting (pl s)) \<subseteq> {w. w < next_timer s}"
    by (auto simp: ids_below_def)
  ultimately have "names r \<subseteq> {w. w < Suc (next_timer s)}"
    by (intro subsetI) (auto simp: less_Suc_eq)
  then have n: "\<And>w. w \<in> names r \<Longrightarrow> w < Suc (next_timer s)" by blast
  from i have i1: "\<And>w v. timers s w = Some v \<Longrightarrow> w < Suc (next_timer s)"
    and i2: "\<And>w v. settlements s w = Some v \<Longrightarrow> w < Suc (next_timer s)"
    and i3: "\<And>tk w. tk \<in> set (suspended s) \<Longrightarrow> w \<in> set (targets tk) \<Longrightarrow> w < Suc (next_timer s)"
    by (force simp: ids_below_def less_Suc_eq)+
  have 1: "\<forall>w \<in> set (waiting (pl (sys_step cfg a rp s))). w < Suc (next_timer s)"
    using n by (simp add: sys_step_fields r_def [symmetric] names_def)
  have 2: "\<forall>w \<in> dom (timers (sys_step cfg a rp s)). w < Suc (next_timer s)"
  proof
    fix w assume "w \<in> dom (timers (sys_step cfg a rp s))"
    then obtain v where "timers (foldl (note_effect (now rp) (chosen a rp s)) (before a rp s)
        (snd (snd r))) w = Some v"
      by (auto simp: sys_step_def absorb_def Let_def r_def)
    from timers_note [OF this] timers_before [of a rp s w v]
    have "timers s w = Some v \<or> w \<in> names r" by (auto simp: names_def)
    with i1 n show "w < Suc (next_timer s)" by blast
  qed
  have 3: "\<forall>w \<in> dom (settlements (sys_step cfg a rp s)). w < Suc (next_timer s)"
  proof
    fix w assume "w \<in> dom (settlements (sys_step cfg a rp s))"
    then obtain v where "settlements (sys_step cfg a rp s) w = Some v" by auto
    from settlements_sys_step [OF this]
    have "settlements s w = Some v \<or> w \<in> names r" by (auto simp: names_def r_def)
    with i2 n show "w < Suc (next_timer s)" by blast
  qed
  have 4: "\<forall>tk \<in> set (suspended (sys_step cfg a rp s)). \<forall>w \<in> set (targets tk). w < Suc (next_timer s)"
  proof (intro ballI)
    fix tk w assume tk: "tk \<in> set (suspended (sys_step cfg a rp s))" and w: "w \<in> set (targets tk)"
    have "set (suspended (before a rp s)) \<subseteq> set (suspended s)"
      by (auto simp: before_suspended split: action.splits dest: set_remove1_subset [THEN subsetD])
    with tk have "tk \<in> set (suspended s) \<or> fst (snd r) = Suspended tk"
      by (auto simp: sys_step_fields r_def split: status.splits)
    then show "w < Suc (next_timer s)"
    proof
      assume "tk \<in> set (suspended s)"
      with i3 w show ?thesis by blast
    next
      assume "fst (snd r) = Suspended tk"
      with w have "w \<in> names r" by (simp add: names_def)
      with n show ?thesis by simp
    qed
  qed
  from 1 2 3 4 show ?thesis by (simp add: ids_below_def sys_step_fields)
qed

lemma sys_reachable_ids: "s \<in> sys_reachable cfg \<Longrightarrow> ids_below s"
proof (induction rule: sys_reachable.induct)
  case sys_init
  show ?case by (simp add: ids_below_def new_sys_def createDuckDBConnectionPool_def)
next
  case (sys_next s a rp)
  then show ?case by (simp add: ids_below_step)
qed

lemma orderly_sys_reachable: "s \<in> orderly_reachable cfg \<Longrightarrow> s \<in> sys_reachable cfg"
  by (induction rule: orderly_reachable.induct) (auto intro: sys_reachable.intros)

text \<open>
  How an \<open>acquire\<close> gets into the queue, the three ways out of it, and what the
  \<open>acquire\<close> does once its waiter is settled.
\<close>

lemma enqueue:
  assumes "ids_below s" and "\<not> closed (pl s)" and "idle (pl s) = []" and "poolSize cfg \<le> total (pl s)"
    and "int (length (waiting (pl s))) < maxWaitingRequests cfg"
  shows "step cfg Acquire (the_reply Acquire rp s) (pl s) =
           ((pl s)\<lparr>waiting := waiting (pl s) @ [next_timer s]\<rparr>,
            Suspended (AcqQueued (next_timer s) ToCaller),
            [SetTimer (next_timer s) (acquireTimeout cfg)])
       \<and> queued (next_timer s) ToCaller (now rp + acquireTimeout cfg) (sys_step cfg Acquire rp s)"
  using assms
  by (auto simp: queued_def ids_below_def sys_defs acquire_defs)

lemma leave_by_timeout:
  assumes "queued w d due s"
  shows "enabled (Timeout w) rp s = (due \<le> now rp)
       \<and> settlements (sys_step cfg (Timeout w) rp s) w
           = Some (Inl (AcquireTimeout (acquireTimeout cfg)), now rp)
       \<and> AcqQueued w d \<in> set (suspended (sys_step cfg (Timeout w) rp s))"
  using assms by (auto simp: queued_def enabled_def sys_defs timeout_def)

lemma leave_by_close:
  assumes "queued w d due s"
  shows "settlements (sys_step cfg Close rp s) w = Some (Inl PoolClosed, now rp)
       \<and> AcqQueued w d \<in> set (suspended (sys_step cfg Close rp s))"
  using assms by (auto simp: queued_def sys_defs close_def note_close)

lemma leave_by_release:
  assumes "queued w d due s" and "waiting (pl s) = w # rest" and "\<not> closed (pl s)"
    and "\<not> expired cfg (meta_or_now (pl s) c (now rp)) (now rp)"
  shows "settlements (sys_step cfg (Release c) rp s) w = Some (Inr c, now rp)
       \<and> AcqQueued w d \<in> set (suspended (sys_step cfg (Release c) rp s))"
  using assms by (auto simp: queued_def sys_defs release_def)

lemma settled_acquire_returns:
  assumes "AcqQueued w ToCaller \<in> set (suspended s)" and "settlements s w = Some (x, ch)"
  shows "enabled (Resume (AcqQueued w ToCaller)) rp s
       \<and> step cfg (Resume (AcqQueued w ToCaller)) (the_reply (Resume (AcqQueued w ToCaller)) rp s) (pl s)
           = (pl s, (case x of Inl e \<Rightarrow> Failed e | Inr c \<Rightarrow> Gave c), [])"
  using assms by (simp add: enabled_def step_def resume_def deliver_def the_reply_def settlement_for_def)


text \<open>
  The pools of size one: their states, which are reachable.
\<close>

lemma one_conn_simps [simp]:
  "poolSize (one_conn K L) = 1" "acquireTimeout (one_conn K L) = 30000"
  "maxWaitingRequests (one_conn K L) = (case K of Some k \<Rightarrow> k | None \<Rightarrow> 100)"
  "maxLifetimeMs (one_conn K L) = L" "idleTimeoutMs (one_conn K L) = None"
  "hasSetup (one_conn K L) = False"
  by (simp_all add: one_conn_def pool_config_of_def)

lemma busy_1_state:
  "busy_1 (one_conn K L) = \<lparr>pl = at_capacity_1, suspended = [], timers = Map.empty,
      settlements = Map.empty, next_timer = 2, made = {7}, born = [7 \<mapsto> 0]\<rparr>"
  by (simp add: busy_1_def sys_defs new_sys_def createDuckDBConnectionPool_def acquire_defs
      resume_def handed_def settled_conns_def at_capacity_1_def rp0_def fun_eq_iff)

lemma busy_1_reachable: "busy_1 (one_conn K L) \<in> orderly_reachable (one_conn K L)"
proof -
  have a: "sys_step (one_conn K L) Acquire (rp0\<lparr>now := 0\<rparr>) new_sys \<in> orderly_reachable (one_conn K L)"
    by (intro orderly_reachable.intros) (simp_all add: enabled_def recorded_def)
  have "enabled (Resume (AcqCreate ToCaller)) (rp0\<lparr>now := 0, created := Inr 7\<rparr>)
      (sys_step (one_conn K L) Acquire (rp0\<lparr>now := 0\<rparr>) new_sys)"
    by (simp add: enabled_def sys_defs new_sys_def createDuckDBConnectionPool_def acquire_defs)
  from orderly_reachable.orderly_next [OF a this] show ?thesis
    by (simp add: busy_1_def recorded_def)
qed

lemma waiting_1_state:
  "waiting_1 (one_conn None L) = \<lparr>pl = at_capacity_1\<lparr>waiting := [2]\<rparr>,
      suspended = [AcqQueued 2 ToCaller], timers = [2 \<mapsto> 30010],
      settlements = Map.empty, next_timer = 3, made = {7}, born = [7 \<mapsto> 0]\<rparr>"
  by (simp add: waiting_1_def busy_1_state sys_defs acquire_defs
      handed_def settled_conns_def at_capacity_1_def rp0_def fun_eq_iff)


text \<open>
  Claim C2, as the code has it.  For a pool created with a whole size \<open>N > 0\<close>, \<open>total\<close> is at
  most \<open>N\<close> in every reachable state, the creation of a connection included.  Take the
  pool among its callers in a reachable state where it is open, \<open>N\<close> connections are
  counted and none is idle (the new pool after \<open>N\<close> calls of \<open>acquire\<close> is in such a
  state).  The next \<open>acquire\<close> creates nothing.  If \<open>maxWaitingRequests\<close> or more waiters
  are queued, which is always so when \<open>maxWaitingRequests\<close> is zero or negative, it raises
  the queue-full error at once.  Otherwise it is queued as a waiter, with a timer of
  \<open>acquireTimeout\<close> ms, and it stays queued, suspended and not settled through every
  sequence of runs that leave it alone.  A queued \<open>acquire\<close> cannot go on.  It leaves the
  queue in one of three ways.  Its timer fires, which it can do only \<open>acquireTimeout\<close> ms
  or more after the \<open>acquire\<close> was queued, and settles it with the acquire-timeout
  error.  Or \<open>close\<close> settles it with the pool-closed error.  Or a \<open>release\<close> finds it
  at the head of the queue; on the open pool, and with a connection that is not expired,
  that \<open>release\<close> settles it with the connection.  Once its waiter is settled, the
  \<open>acquire\<close> goes on and raises that error or returns that connection.
\<close>

theorem pool_capacity_and_blocking:
  assumes "cfg = pool_config_of options" and "opt_size options = Some (Whole N)" and "0 < N"
    and "s \<in> sys_reachable cfg"
    and "\<not> closed (pl s)" and "idle (pl s) = []" and "total (pl s) = N"
    and "w = next_timer s" and "due = now rp + acquireTimeout cfg"
  shows "(\<forall>q \<in> reachable cfg. total q \<le> N)
       \<and> (\<forall>q \<in> sys_reachable cfg. total (pl q) \<le> N)
       \<and> (maxWaitingRequests cfg \<le> int (length (waiting (pl s))) \<longrightarrow>
            step cfg Acquire (the_reply Acquire rp s) (pl s)
              = (pl s, Failed (QueueFull (maxWaitingRequests cfg)), []))
       \<and> (int (length (waiting (pl s))) < maxWaitingRequests cfg \<longrightarrow>
            step cfg Acquire (the_reply Acquire rp s) (pl s)
              = ((pl s)\<lparr>waiting := waiting (pl s) @ [w]\<rparr>, Suspended (AcqQueued w ToCaller),
                 [SetTimer w (acquireTimeout cfg)])
            \<and> queued w ToCaller due (sys_step cfg Acquire rp s)
            \<and> (passes cfg w steps (sys_step cfg Acquire rp s) \<longrightarrow>
                 queued w ToCaller due (sys_steps cfg steps (sys_step cfg Acquire rp s))))
       \<and> (queued w ToCaller due s' \<longrightarrow>
            \<not> enabled (Resume (AcqQueued w ToCaller)) rp' s'
            \<and> enabled (Timeout w) rp' s' = (due \<le> now rp')
            \<and> settlements (sys_step cfg (Timeout w) rp' s') w
                = Some (Inl (AcquireTimeout (acquireTimeout cfg)), now rp')
            \<and> settlements (sys_step cfg Close rp' s') w = Some (Inl PoolClosed, now rp')
            \<and> (waiting (pl s') = w # rest \<and> \<not> closed (pl s')
                 \<and> \<not> expired cfg (meta_or_now (pl s') c (now rp')) (now rp') \<longrightarrow>
                 settlements (sys_step cfg (Release c) rp' s') w = Some (Inr c, now rp')))
       \<and> (AcqQueued w ToCaller \<in> set (suspended s'') \<and> settlements s'' w = Some (x, ch) \<longrightarrow>
            enabled (Resume (AcqQueued w ToCaller)) rp'' s''
            \<and> step cfg (Resume (AcqQueued w ToCaller))
                 (the_reply (Resume (AcqQueued w ToCaller)) rp'' s'') (pl s'')
               = (pl s'', (case x of Inl e \<Rightarrow> Failed e | Inr c \<Rightarrow> Gave c), []))
       \<and> (length cs = nat N \<longrightarrow>
            \<not> closed (checkouts cfg cs createDuckDBConnectionPool)
            \<and> idle (checkouts cfg cs createDuckDBConnectionPool) = []
            \<and> waiting (checkouts cfg cs createDuckDBConnectionPool) = []
            \<and> total (checkouts cfg cs createDuckDBConnectionPool) = N)"
proof -
  from assms(1-3) have n: "poolSize cfg = N" by (simp add: pool_config_of_def)
  with assms(3) have "0 \<le> poolSize cfg" by simp
  from reachable_bounded [OF this] n have 1: "\<forall>q \<in> reachable cfg. total q \<le> N"
    by (simp add: bounded_def)
  with sys_reachable_pool have 2: "\<forall>q \<in> sys_reachable cfg. total (pl q) \<le> N" by blast
  from assms(5-7) n have 3: "maxWaitingRequests cfg \<le> int (length (waiting (pl s))) \<longrightarrow>
            step cfg Acquire (the_reply Acquire rp s) (pl s)
              = (pl s, Failed (QueueFull (maxWaitingRequests cfg)), [])"
    by (simp add: step_def acquire_defs)
  have 4: "int (length (waiting (pl s))) < maxWaitingRequests cfg \<longrightarrow>
            step cfg Acquire (the_reply Acquire rp s) (pl s)
              = ((pl s)\<lparr>waiting := waiting (pl s) @ [w]\<rparr>, Suspended (AcqQueued w ToCaller),
                 [SetTimer w (acquireTimeout cfg)])
            \<and> queued w ToCaller due (sys_step cfg Acquire rp s)
            \<and> (passes cfg w steps (sys_step cfg Acquire rp s) \<longrightarrow>
                 queued w ToCaller due (sys_steps cfg steps (sys_step cfg Acquire rp s)))"
  proof
    assume k: "int (length (waiting (pl s))) < maxWaitingRequests cfg"
    from assms(7) n have "poolSize cfg \<le> total (pl s)" by simp
    from enqueue [OF sys_reachable_ids [OF assms(4)] assms(5,6) this k, of rp] assms(8,9)
    have e: "step cfg Acquire (the_reply Acquire rp s) (pl s)
              = ((pl s)\<lparr>waiting := waiting (pl s) @ [w]\<rparr>, Suspended (AcqQueued w ToCaller),
                 [SetTimer w (acquireTimeout cfg)])"
      "queued w ToCaller due (sys_step cfg Acquire rp s)" by simp_all
    with queued_steps show "step cfg Acquire (the_reply Acquire rp s) (pl s)
              = ((pl s)\<lparr>waiting := waiting (pl s) @ [w]\<rparr>, Suspended (AcqQueued w ToCaller),
                 [SetTimer w (acquireTimeout cfg)])
            \<and> queued w ToCaller due (sys_step cfg Acquire rp s)
            \<and> (passes cfg w steps (sys_step cfg Acquire rp s) \<longrightarrow>
                 queued w ToCaller due (sys_steps cfg steps (sys_step cfg Acquire rp s)))"
      by blast
  qed
  have 5: "queued w ToCaller due s' \<longrightarrow>
            \<not> enabled (Resume (AcqQueued w ToCaller)) rp' s'
            \<and> enabled (Timeout w) rp' s' = (due \<le> now rp')
            \<and> settlements (sys_step cfg (Timeout w) rp' s') w
                = Some (Inl (AcquireTimeout (acquireTimeout cfg)), now rp')
            \<and> settlements (sys_step cfg Close rp' s') w = Some (Inl PoolClosed, now rp')
            \<and> (waiting (pl s') = w # rest \<and> \<not> closed (pl s')
                 \<and> \<not> expired cfg (meta_or_now (pl s') c (now rp')) (now rp') \<longrightarrow>
                 settlements (sys_step cfg (Release c) rp' s') w = Some (Inr c, now rp'))"
  proof
    assume q: "queued w ToCaller due s'"
    then have "\<not> enabled (Resume (AcqQueued w ToCaller)) rp' s'"
      by (simp add: queued_def enabled_def)
    with leave_by_timeout [OF q, of rp' cfg] leave_by_close [OF q, of cfg rp']
      leave_by_release [OF q, of rest cfg c rp']
    show "\<not> enabled (Resume (AcqQueued w ToCaller)) rp' s'
            \<and> enabled (Timeout w) rp' s' = (due \<le> now rp')
            \<and> settlements (sys_step cfg (Timeout w) rp' s') w
                = Some (Inl (AcquireTimeout (acquireTimeout cfg)), now rp')
            \<and> settlements (sys_step cfg Close rp' s') w = Some (Inl PoolClosed, now rp')
            \<and> (waiting (pl s') = w # rest \<and> \<not> closed (pl s')
                 \<and> \<not> expired cfg (meta_or_now (pl s') c (now rp')) (now rp') \<longrightarrow>
                 settlements (sys_step cfg (Release c) rp' s') w = Some (Inr c, now rp'))"
      by blast
  qed
  from settled_acquire_returns [of w s'' x ch rp'' cfg]
  have 6: "AcqQueued w ToCaller \<in> set (suspended s'') \<and> settlements s'' w = Some (x, ch) \<longrightarrow>
            enabled (Resume (AcqQueued w ToCaller)) rp'' s''
            \<and> step cfg (Resume (AcqQueued w ToCaller))
                 (the_reply (Resume (AcqQueued w ToCaller)) rp'' s'') (pl s'')
               = (pl s'', (case x of Inl e \<Rightarrow> Failed e | Inr c \<Rightarrow> Gave c), [])"
    by blast
  from n assms(3) full_pool [of cs cfg]
  have 7: "length cs = nat N \<longrightarrow>
            \<not> closed (checkouts cfg cs createDuckDBConnectionPool)
            \<and> idle (checkouts cfg cs createDuckDBConnectionPool) = []
            \<and> waiting (checkouts cfg cs createDuckDBConnectionPool) = []
            \<and> total (checkouts cfg cs createDuckDBConnectionPool) = N"
    by simp
  from 1 2 3 4 5 6 7 show ?thesis by blast
qed


text \<open>
  The pool of size one with connection 7 checked out.  A second \<open>acquire\<close>, at time 10,
  is queued as waiter 2 with a timer of 30000 ms; it is still queued after a third
  \<open>acquire\<close> has queued behind it and that one's timer has fired.  At time 30009 its own
  timer cannot fire yet; a \<open>release\<close> of connection 7 settles it with that connection.
\<close>

theorem pool_capacity_and_blocking_witness:
  "step (one_conn None None) Acquire (the_reply Acquire rp0 (busy_1 (one_conn None None)))
       (pl (busy_1 (one_conn None None)))
     = (at_capacity_1\<lparr>waiting := [2]\<rparr>, Suspended (AcqQueued 2 ToCaller), [SetTimer 2 30000])
   \<and> queued 2 ToCaller 30010 (waiting_1 (one_conn None None))
   \<and> passes (one_conn None None) 2 [(Acquire, rp0), (Timeout 3, rp0\<lparr>now := 30020\<rparr>)]
        (waiting_1 (one_conn None None))
   \<and> queued 2 ToCaller 30010
        (sys_steps (one_conn None None) [(Acquire, rp0), (Timeout 3, rp0\<lparr>now := 30020\<rparr>)]
           (waiting_1 (one_conn None None)))
   \<and> \<not> enabled (Timeout 2) (rp0\<lparr>now := 30009\<rparr>) (waiting_1 (one_conn None None))
   \<and> settlements (sys_step (one_conn None None) (Timeout 2) (rp0\<lparr>now := 30009\<rparr>)
        (waiting_1 (one_conn None None))) 2 = Some (Inl (AcquireTimeout 30000), 30009)
   \<and> settlements (sys_step (one_conn None None) (Release 7) (rp0\<lparr>now := 30009\<rparr>)
        (waiting_1 (one_conn None None))) 2 = Some (Inr 7, 30009)
   \<and> total (pl new_sys) \<le> 1"
proof -
  define cfg where "cfg = one_conn None None"
  define opts where "opts = \<lparr>opt_size = Some (Whole 1), opt_acquireTimeout = None,
        opt_maxWaitingRequests = None, opt_maxLifetimeMs = None, opt_idleTimeoutMs = None,
        opt_setup = False\<rparr>"
  define steps where "steps = [(Acquire, rp0), (Timeout 3, rp0\<lparr>now := 30020\<rparr>)]"
  define late where "late = rp0\<lparr>now := 30009\<rparr>"
  have c: "cfg = pool_config_of opts" by (simp add: cfg_def one_conn_def opts_def)
  have a: "opt_size opts = Some (Whole 1)" "(0::int) < 1" by (simp_all add: opts_def)
  have r: "busy_1 cfg \<in> sys_reachable cfg"
    unfolding cfg_def by (rule orderly_sys_reachable [OF busy_1_reachable])
  have b: "\<not> closed (pl (busy_1 cfg))" "idle (pl (busy_1 cfg)) = []" "total (pl (busy_1 cfg)) = 1"
    "2 = next_timer (busy_1 cfg)" "30010 = now rp0 + acquireTimeout cfg"
    by (simp_all add: cfg_def busy_1_state at_capacity_1_def rp0_def)
  have k: "int (length (waiting (pl (busy_1 cfg)))) < maxWaitingRequests cfg"
    by (simp add: cfg_def busy_1_state at_capacity_1_def)
  have "passes cfg 2 steps (waiting_1 cfg)"
    by (simp add: cfg_def steps_def waiting_1_state enabled_def leaves_def
        sys_defs acquire_defs at_capacity_1_def rp0_def)
  then have p: "passes cfg 2 steps (sys_step cfg Acquire rp0 (busy_1 cfg))"
    unfolding waiting_1_def .
  have "waiting (pl (waiting_1 cfg)) = 2 # [] \<and> \<not> closed (pl (waiting_1 cfg))
      \<and> \<not> expired cfg (meta_or_now (pl (waiting_1 cfg)) 7 (now late)) (now late)"
    by (simp add: cfg_def waiting_1_state at_capacity_1_def expired_def)
  then have w: "waiting (pl (sys_step cfg Acquire rp0 (busy_1 cfg))) = 2 # []
      \<and> \<not> closed (pl (sys_step cfg Acquire rp0 (busy_1 cfg)))
      \<and> \<not> expired cfg (meta_or_now (pl (sys_step cfg Acquire rp0 (busy_1 cfg))) 7 (now late)) (now late)"
    unfolding waiting_1_def .
  have i: "new_sys \<in> sys_reachable cfg" by (rule sys_reachable.sys_init)
  note T = pool_capacity_and_blocking [OF c a r b, where steps = steps
      and s' = "sys_step cfg Acquire rp0 (busy_1 cfg)" and rp' = late and rest = "[]" and c = 7]
  from T k have 1: "step cfg Acquire (the_reply Acquire rp0 (busy_1 cfg)) (pl (busy_1 cfg))
      = ((pl (busy_1 cfg))\<lparr>waiting := waiting (pl (busy_1 cfg)) @ [2]\<rparr>,
         Suspended (AcqQueued 2 ToCaller), [SetTimer 2 (acquireTimeout cfg)])"
    and 2: "queued 2 ToCaller 30010 (sys_step cfg Acquire rp0 (busy_1 cfg))"
    by blast+
  from T k p have 3: "queued 2 ToCaller 30010 (sys_steps cfg steps (sys_step cfg Acquire rp0 (busy_1 cfg)))"
    by blast
  from T 2 w have 4: "enabled (Timeout 2) late (sys_step cfg Acquire rp0 (busy_1 cfg)) = (30010 \<le> now late)"
    and 5: "settlements (sys_step cfg (Timeout 2) late (sys_step cfg Acquire rp0 (busy_1 cfg))) 2
        = Some (Inl (AcquireTimeout (acquireTimeout cfg)), now late)"
    and 6: "settlements (sys_step cfg (Release 7) late (sys_step cfg Acquire rp0 (busy_1 cfg))) 2
        = Some (Inr 7, now late)"
    by blast+
  from T i have 7: "total (pl new_sys) \<le> 1" by blast
  from 1 have 1: "step cfg Acquire (the_reply Acquire rp0 (busy_1 cfg)) (pl (busy_1 cfg))
     = (at_capacity_1\<lparr>waiting := [2]\<rparr>, Suspended (AcqQueued 2 ToCaller), [SetTimer 2 30000])"
    by (simp add: cfg_def busy_1_state at_capacity_1_def)
  from 4 have 4: "\<not> enabled (Timeout 2) late (sys_step cfg Acquire rp0 (busy_1 cfg))"
    by (simp add: late_def)
  from 5 have 5: "settlements (sys_step cfg (Timeout 2) late (sys_step cfg Acquire rp0 (busy_1 cfg))) 2
        = Some (Inl (AcquireTimeout 30000), 30009)"
    by (simp add: late_def cfg_def)
  from 6 have 6: "settlements (sys_step cfg (Release 7) late (sys_step cfg Acquire rp0 (busy_1 cfg))) 2
        = Some (Inr 7, 30009)"
    by (simp add: late_def)
  from 1 2 p 3 4 5 6 7 show ?thesis
    unfolding waiting_1_def cfg_def steps_def late_def by blast
qed

text \<open>
  Claim C2 as stated fails in these ways.  With \<open>maxWaitingRequests = 0\<close> the second
  \<open>acquire\<close> on the pool of size one does not wait: it raises the queue-full error at
  once.  A waiter does not always wait for a \<open>release\<close> or for its timer: \<open>close\<close>, at
  time 20, settles waiter 2 with the pool-closed error, and its \<open>acquire\<close> raises that
  error.  With a size between 2 and 3, three calls of \<open>acquire\<close> create three
  connections, more than the size; and a size of 0 stands for the default of 4, so that
  one \<open>acquire\<close> creates a connection.
\<close>

theorem pool_blocking_counterexample:
  "step (one_conn (Some 0) None) Acquire (the_reply Acquire rp0 (busy_1 (one_conn (Some 0) None)))
       (pl (busy_1 (one_conn (Some 0) None)))
     = (at_capacity_1, Failed (QueueFull 0), [])
   \<and> settlements (sys_step (one_conn None None) Close (rp0\<lparr>now := 20\<rparr>)
        (waiting_1 (one_conn None None))) 2 = Some (Inl PoolClosed, 20)
   \<and> step (one_conn None None) (Resume (AcqQueued 2 ToCaller))
        (the_reply (Resume (AcqQueued 2 ToCaller)) rp0
           (sys_step (one_conn None None) Close (rp0\<lparr>now := 20\<rparr>) (waiting_1 (one_conn None None))))
        (pl (sys_step (one_conn None None) Close (rp0\<lparr>now := 20\<rparr>) (waiting_1 (one_conn None None))))
     = (at_capacity_1\<lparr>closed := True\<rparr>, Failed PoolClosed, [])
   \<and> total (checkouts (pool_config_of \<lparr>opt_size = Some (Between 2), opt_acquireTimeout = None,
        opt_maxWaitingRequests = None, opt_maxLifetimeMs = None, opt_idleTimeoutMs = None,
        opt_setup = False\<rparr>) [7, 8, 9] createDuckDBConnectionPool) = 3
   \<and> exceeds 3 (Between 2)
   \<and> total (checkouts (pool_config_of \<lparr>opt_size = Some (Whole 0), opt_acquireTimeout = None,
        opt_maxWaitingRequests = None, opt_maxLifetimeMs = None, opt_idleTimeoutMs = None,
        opt_setup = False\<rparr>) [7] createDuckDBConnectionPool) = 1
   \<and> exceeds 1 (Whole 0)"
  by (simp add: busy_1_state waiting_1_state sys_defs acquire_defs close_def resume_def
      at_capacity_1_def rp0_def checkout_def answer_def pool_config_of_def
      createDuckDBConnectionPool_def)

text \<open>
  Claim C6, as the code has it, for a lifetime \<open>L \<ge> 0\<close> and callers that release only
  connections the pool has a record of.  Whatever run hands a connection to a caller or
  settles a waiter with it, the age of the connection, the time since it was born, did
  not exceed \<open>L\<close> when the connection was chosen (for a waiting \<open>acquire\<close> that passes on
  what its waiter was settled with: when the waiter was settled); and the time at which
  a connection was born never changes.  An \<open>acquire\<close> that pops an idle connection of
  age \<open>L\<close> or more destroys it and, when the destruction has returned, forgets it and
  goes on scanning.  A \<open>release\<close> with a waiter queued, of a connection of age \<open>L\<close> or
  more, takes the waiter off the queue and destroys the connection; when the destruction
  has returned it decrements \<open>total\<close>, forgets the connection, and calls \<open>acquire\<close> for
  the waiter.
\<close>

theorem expired_never_handed_out:
  assumes "maxLifetimeMs cfg = Some L" and "0 \<le> L"
    and "s \<in> orderly_reachable cfg" and "enabled a rp s" and "recorded a s"
  shows "(\<forall>c \<in> set (handed (step cfg a (the_reply a rp s) (pl s))).
            \<exists>b. born (sys_step cfg a rp s) c = Some b \<and> \<not> (chosen a rp s - b > L))
       \<and> (\<forall>c b. born s c = Some b \<longrightarrow> born (sys_step cfg a rp s) c = Some b)
       \<and> (idle p = pooled # rest \<and> now rp1 - createdAt pooled \<ge> L \<and> \<not> closed p \<longrightarrow>
            acquire cfg d rp1 p =
              (p\<lparr>idle := rest\<rparr>, Suspended (AcqRecycle pooled d), [Destroy (connection pooled)])
            \<and> resume cfg (AcqRecycle pooled d) (rp2\<lparr>destroyed := None\<rparr>) q =
                acquire_scan cfg d (rp2\<lparr>destroyed := None\<rparr>) (forget (connection pooled) q))
       \<and> (waiting p = waiter # others \<and> metadata p c = Some m \<and> now rp1 - m_createdAt m \<ge> L
             \<and> \<not> closed p \<longrightarrow>
            release cfg c rp1 p =
              (p\<lparr>waiting := others\<rparr>, Suspended (RelWaiterExpired c waiter),
               [ClearTimer waiter, Destroy c])
            \<and> resume cfg (RelWaiterExpired c waiter) (rp2\<lparr>destroyed := None\<rparr>) q =
                acquire cfg (ToWaiter waiter) (rp2\<lparr>destroyed := None\<rparr>)
                  (q\<lparr>total := max 0 (total q - 1), metadata := (metadata q)(c := None)\<rparr>))"
proof (intro conjI impI allI)
  from orderly_step [OF orderly_reachable_orderly [OF assms(1-3)] assms(1,2,4,5)]
  show "\<forall>c \<in> set (handed (step cfg a (the_reply a rp s) (pl s))).
            \<exists>b. born (sys_step cfg a rp s) c = Some b \<and> \<not> (chosen a rp s - b > L)"
    by fastforce
next
  fix c b assume "born s c = Some b"
  then show "born (sys_step cfg a rp s) c = Some b"
    by (simp add: sys_step_fields reborn_keeps)
next
  assume "idle p = pooled # rest \<and> now rp1 - createdAt pooled \<ge> L \<and> \<not> closed p"
  with assms(1) show "acquire cfg d rp1 p =
              (p\<lparr>idle := rest\<rparr>, Suspended (AcqRecycle pooled d), [Destroy (connection pooled)])"
    by (simp add: acquire_def acquire_scan_def shouldRecycle_def)
next
  show "resume cfg (AcqRecycle pooled d) (rp2\<lparr>destroyed := None\<rparr>) q =
                acquire_scan cfg d (rp2\<lparr>destroyed := None\<rparr>) (forget (connection pooled) q)"
    by (simp add: resume_def)
next
  assume "waiting p = waiter # others \<and> metadata p c = Some m \<and> now rp1 - m_createdAt m \<ge> L
             \<and> \<not> closed p"
  with assms(1) show "release cfg c rp1 p =
              (p\<lparr>waiting := others\<rparr>, Suspended (RelWaiterExpired c waiter),
               [ClearTimer waiter, Destroy c])"
    by (simp add: release_def meta_or_now_def expired_def Let_def)
next
  show "resume cfg (RelWaiterExpired c waiter) (rp2\<lparr>destroyed := None\<rparr>) q =
                acquire cfg (ToWaiter waiter) (rp2\<lparr>destroyed := None\<rparr>)
                  (q\<lparr>total := max 0 (total q - 1), metadata := (metadata q)(c := None)\<rparr>)"
    by (simp add: resume_def forget_def)
qed

text \<open>
  The state in which the \<open>acquire\<close> made for waiter 2 is creating a connection.
\<close>

lemma recycling_1_state:
  "recycling_1 (one_conn None (Some 1000)) =
     \<lparr>pl = \<lparr>idle = [], waiting = [], total = 1, closed = False, pendingAcquires = 1,
             metadata = Map.empty\<rparr>,
      suspended = [AcqQueued 2 ToCaller, AcqCreate (ToWaiter 2)], timers = Map.empty,
      settlements = Map.empty, next_timer = 5, made = {7}, born = [7 \<mapsto> 0]\<rparr>"
  by (simp add: recycling_1_def waiting_1_state sys_defs acquire_defs release_def resume_def
      meta_or_now_def expired_def handed_def settled_conns_def at_capacity_1_def rp0_def fun_eq_iff)

lemma recycling_1_reachable:
  "recycling_1 (one_conn None (Some 1000)) \<in> orderly_reachable (one_conn None (Some 1000))"
proof -
  define cfg where "cfg = one_conn None (Some 1000)"
  have 0: "busy_1 cfg \<in> orderly_reachable cfg" unfolding cfg_def by (rule busy_1_reachable)
  have 1: "waiting_1 cfg \<in> orderly_reachable cfg"
    unfolding waiting_1_def by (rule orderly_reachable.orderly_next [OF 0]) (simp_all add: enabled_def recorded_def)
  have "recorded (Release 7) (waiting_1 cfg)"
    by (simp add: recorded_def cfg_def waiting_1_state at_capacity_1_def)
  with 1 have 2: "sys_step cfg (Release 7) (rp0\<lparr>now := 2000\<rparr>) (waiting_1 cfg) \<in> orderly_reachable cfg"
    by (intro orderly_reachable.orderly_next) (simp_all add: enabled_def)
  have "enabled (Resume (RelWaiterExpired 7 2)) (rp0\<lparr>now := 2001\<rparr>)
      (sys_step cfg (Release 7) (rp0\<lparr>now := 2000\<rparr>) (waiting_1 cfg))"
    by (simp add: enabled_def cfg_def waiting_1_state sys_defs release_def meta_or_now_def expired_def
        at_capacity_1_def rp0_def)
  from orderly_reachable.orderly_next [OF 2 this] show ?thesis
    by (simp add: recycling_1_def recorded_def cfg_def)
qed


text \<open>
  The waiter gets the new connection 8, born at 2002, not the expired connection 7, born
  at 0 and released at 2000 with a lifetime of 1000.
\<close>

theorem expired_never_handed_out_witness:
  "handed (step (one_conn None (Some 1000)) (Resume (AcqCreate (ToWaiter 2)))
       (the_reply (Resume (AcqCreate (ToWaiter 2))) (rp0\<lparr>now := 2002\<rparr>)
          (recycling_1 (one_conn None (Some 1000))))
       (pl (recycling_1 (one_conn None (Some 1000))))) = [8]
   \<and> born (sys_step (one_conn None (Some 1000)) (Resume (AcqCreate (ToWaiter 2)))
        (rp0\<lparr>now := 2002\<rparr>) (recycling_1 (one_conn None (Some 1000)))) 8 = Some 2002
   \<and> born (sys_step (one_conn None (Some 1000)) (Resume (AcqCreate (ToWaiter 2)))
        (rp0\<lparr>now := 2002\<rparr>) (recycling_1 (one_conn None (Some 1000)))) 7 = Some 0
   \<and> \<not> (chosen (Resume (AcqCreate (ToWaiter 2))) (rp0\<lparr>now := 2002\<rparr>)
            (recycling_1 (one_conn None (Some 1000))) - 2002 > 1000)
   \<and> settlements (sys_step (one_conn None (Some 1000)) (Resume (AcqCreate (ToWaiter 2)))
        (rp0\<lparr>now := 2002\<rparr>) (recycling_1 (one_conn None (Some 1000)))) 2 = Some (Inr 8, 2002)
   \<and> release (one_conn None (Some 1000)) 7 (rp0\<lparr>now := 2000\<rparr>) (at_capacity_1\<lparr>waiting := [2]\<rparr>)
       = (at_capacity_1, Suspended (RelWaiterExpired 7 2), [ClearTimer 2, Destroy 7])"
proof -
  define cfg where "cfg = one_conn None (Some 1000)"
  define a where "a = Resume (AcqCreate (ToWaiter 2))"
  define rp where "rp = rp0\<lparr>now := 2002\<rparr>"
  define s where "s = recycling_1 cfg"
  define p where "p = at_capacity_1\<lparr>waiting := [2]\<rparr>"
  have l: "maxLifetimeMs cfg = Some 1000" "(0::int) \<le> 1000" by (simp_all add: cfg_def)
  have r: "s \<in> orderly_reachable cfg" unfolding s_def cfg_def by (rule recycling_1_reachable)
  have e: "enabled a rp s" "recorded a s"
    by (simp_all add: enabled_def recorded_def a_def rp_def s_def cfg_def recycling_1_state rp0_def)
  have h: "handed (step cfg a (the_reply a rp s) (pl s)) = [8]"
    by (simp add: a_def rp_def s_def cfg_def recycling_1_state step_def resume_def acquire_defs
        the_reply_def handed_def settled_conns_def rp0_def)
  have ch: "chosen a rp s = 2002"
    by (simp add: a_def rp_def chosen_def settlement_for_def)
  have w: "waiting p = 2 # [] \<and> metadata p 7 = Some \<lparr>m_createdAt = 0, m_lastUsedAt = 0\<rparr>
      \<and> now (rp0\<lparr>now := 2000\<rparr>) - m_createdAt \<lparr>m_createdAt = 0, m_lastUsedAt = 0\<rparr> \<ge> 1000 \<and> \<not> closed p"
    by (simp add: p_def at_capacity_1_def)
  have b7: "born s 7 = Some 0"
    by (simp add: s_def cfg_def recycling_1_state)
  note T = expired_never_handed_out [OF l r e, where p = p and waiter = 2 and others = "[]"
      and c = 7 and m = "\<lparr>m_createdAt = 0, m_lastUsedAt = 0\<rparr>" and ?rp1.0 = "rp0\<lparr>now := 2000\<rparr>"]
  from T [THEN conjunct1] h
  obtain b where b: "born (sys_step cfg a rp s) 8 = Some b" "\<not> (chosen a rp s - b > 1000)"
    by auto
  have b8: "born (sys_step cfg a rp s) 8 = Some 2002"
    by (simp add: a_def rp_def s_def cfg_def recycling_1_state sys_defs resume_def acquire_defs
        handed_def settled_conns_def rp0_def)
  with b have y: "\<not> (chosen a rp s - 2002 > 1000)" by simp
  note b8
  moreover from T [THEN conjunct2, THEN conjunct1] b7
  have "born (sys_step cfg a rp s) 7 = Some 0" by blast
  moreover have "settlements (sys_step cfg a rp s) 2 = Some (Inr 8, 2002)"
    by (simp add: a_def rp_def s_def cfg_def recycling_1_state sys_defs resume_def acquire_defs
        handed_def settled_conns_def rp0_def)
  moreover from T [THEN conjunct2, THEN conjunct2, THEN conjunct2] w
  have "release cfg 7 (rp0\<lparr>now := 2000\<rparr>) p =
              (p\<lparr>waiting := []\<rparr>, Suspended (RelWaiterExpired 7 2), [ClearTimer 2, Destroy 7])"
    by blast
  then have "release cfg 7 (rp0\<lparr>now := 2000\<rparr>) p =
              (at_capacity_1, Suspended (RelWaiterExpired 7 2), [ClearTimer 2, Destroy 7])"
    by (simp add: p_def at_capacity_1_def)
  ultimately show ?thesis
    using h y unfolding cfg_def a_def rp_def s_def p_def by blast
qed

text \<open>
  Claim C6 as stated fails in two ways.  With a negative lifetime every connection is
  older than the lifetime from the moment it is created: \<open>acquire\<close> hands out the new
  connection 7 at age 0, with a lifetime of -1.  And a connection released when the pool
  has no record of it gets a new record: connection 7, born at 0, is released at 2000
  with a lifetime of 1000 and destroyed; released again at 2500, it is pushed on the
  idle stack with \<open>createdAt = 2500\<close>, and \<open>acquire\<close> hands it out at 3000.
\<close>

theorem expired_handed_out_counterexample:
  "handed (step (one_conn None (Some (- 1))) (Resume (AcqCreate ToCaller))
       (the_reply (Resume (AcqCreate ToCaller)) (rp0\<lparr>now := 5, created := Inr 7\<rparr>)
          (sys_step (one_conn None (Some (- 1))) Acquire (rp0\<lparr>now := 0\<rparr>) new_sys))
       (pl (sys_step (one_conn None (Some (- 1))) Acquire (rp0\<lparr>now := 0\<rparr>) new_sys))) = [7]
   \<and> born (sys_step (one_conn None (Some (- 1))) (Resume (AcqCreate ToCaller))
        (rp0\<lparr>now := 5, created := Inr 7\<rparr>)
        (sys_step (one_conn None (Some (- 1))) Acquire (rp0\<lparr>now := 0\<rparr>) new_sys)) 7 = Some 5
   \<and> (5::int) - 5 > - 1
   \<and> \<not> recorded (Release 7)
        (sys_steps (one_conn None (Some 1000))
           [(Release 7, rp0\<lparr>now := 2000\<rparr>), (Resume (RelExpired 7), rp0\<lparr>now := 2001\<rparr>)]
           (busy_1 (one_conn None (Some 1000))))
   \<and> handed (step (one_conn None (Some 1000)) Acquire
        (the_reply Acquire (rp0\<lparr>now := 3000\<rparr>) (reused_1 (one_conn None (Some 1000))))
        (pl (reused_1 (one_conn None (Some 1000))))) = [7]
   \<and> born (sys_step (one_conn None (Some 1000)) Acquire (rp0\<lparr>now := 3000\<rparr>)
        (reused_1 (one_conn None (Some 1000)))) 7 = Some 0
   \<and> (3000::int) - 0 > 1000"
  by (simp add: reused_1_def busy_1_state sys_defs acquire_defs release_def resume_def recorded_def
      meta_or_now_def expired_def shouldRecycle_def handed_def settled_conns_def new_sys_def
      createDuckDBConnectionPool_def at_capacity_1_def rp0_def)

end
